theory Spec2Isabelle
  imports Complex_Main "HOL-Library.Sublist"
begin

section \<open>Data of the orchestration\<close>

text \<open>
  The module drives a browser page through an hCaptcha challenge and harvests the
  token from an intercepted request. JavaScript numbers are modelled as reals (no
  claim depends on rounding), strings as \<open>string\<close>, a thrown \<open>Error\<close> by its
  \<open>message\<close>, the only part the code inspects.
\<close>

text \<open>A point of a solution, after the unary plus of \<open>+data.x\<close>, \<open>+data.y\<close>.\<close>

record point =
  px :: real
  py :: real

text \<open>What \<open>boundingBox()\<close> resolves with when it is not \<open>null\<close>.\<close>

record bbox =
  box_x :: real
  box_y :: real
  box_width :: real
  box_height :: real

text \<open>The answer of \<open>solver.coordinates\<close>: \<open>captcha.id\<close> and \<open>captcha.data\<close>.\<close>

record captcha =
  cid :: string
  cdata :: "point list"

text \<open>The \<open>paramsCoordinates\<close> payload built for each attempt.\<close>

record payload =
  body :: string
  textinstructions :: "string option"
  imginstructions :: "string option"

text \<open>The locators the function creates, and the first argument of \<open>click\<close>.\<close>

datatype locator = Textarea | CreateButton | ChallengeContainer | SubmitButton

datatype target = TPage | TLocator locator

text \<open>The \<open>target\<close> handed to \<open>cursor.actions.click\<close>: \<open>null\<close>, or an object with
  \<open>x\<close>, \<open>y\<close> and a width and height that may be \<open>null\<close> or absent.\<close>

datatype ghost_target = GNull | GBox real real "real option" "real option"

text \<open>
  A request caught by the route: its \<open>authorization\<close> header (absent or a string) and
  what \<open>postDataJSON()\<close> gives: \<open>null\<close> without post data, an exception on a body that
  does not parse, or an object whose \<open>token\<close> field is a string or \<open>undefined\<close>.
\<close>

datatype post_data = NoPostData | InvalidJson | JsonObject "string option"

record request =
  authorization :: "string option"
  postData :: post_data

text \<open>Everything the run does to the outside, in the order it does it.\<close>

datatype event =
    Log string
  | Launch | NewContext | AddCookies | NewPage | Goto | WaitForResponse | CreateCursor
  | CloseClick
  | LocatorClick locator "(real \<times> real) option"
  | PageMouseClick real real
  | GhostClick ghost_target
  | PressSequentially string
  | Import string
  | WaitForRequests
  | InnerText
  | Screenshot
  | ReadFile
  | Coordinates payload
  | BadReport string
  | BoundingBox locator
  | MouseMove real real "nat option"
  | MouseDown
  | MouseUp
  | Sleep real
  | RouteAbort request
  | BrowserClose
  | ControllerAbort
  | OnNewToken string

text \<open>How an awaited operation of the environment settles.\<close>

datatype 'a reply = Fulfil 'a | Reject string

text \<open>The promise returned to the caller; \<open>None\<close> is \<open>undefined\<close>.\<close>

datatype settled = Pending | Fulfilled "string option" | Rejected string

text \<open>
  The world of one run. The environment's answers are queues, one per result type,
  consumed in the order the operations are issued; an operation that finds its queue
  empty never settles. \<open>arrivals\<close> schedules the requests matching the route: its
  \<open>k\<close>-th element holds those that arrive during the \<open>k\<close>-th suspension from the
  registration of the route (\<open>routed\<close>) on. The other fields record what the run has done:
  the state of the abort signal and how often it changed, the calls of \<open>close\<close>, the
  requests aborted, the calls of \<open>onNewToken\<close>, the state of the returned promise and
  the rejections nobody handles.
\<close>

record world =
  trace :: "event list"
  unit_replies :: "unit reply list"
  text_replies :: "string reply list"
  buffer_replies :: "string reply list"
  box_replies :: "bbox option reply list"
  solver_replies :: "captcha reply list"
  arrivals :: "request list list"
  routed :: bool
  signal_aborted :: bool
  abort_events :: nat
  closes :: nat
  routes_aborted :: "request list"
  new_tokens :: "string list"
  result :: settled
  unhandled :: "string list"

section \<open>Strings\<close>

text \<open>\<open>s.includes(p)\<close>.\<close>

fun includes_str :: "string \<Rightarrow> string \<Rightarrow> bool" where
  "includes_str [] p = (p = [])"
| "includes_str (c # cs) p = (prefix p (c # cs) \<or> includes_str cs p)"

text \<open>\<open>toLowerCase\<close> on the ASCII letters.\<close>

definition lower_char :: "char \<Rightarrow> char" where
  "lower_char c =
     (let n = (of_char c :: nat) in if 65 \<le> n \<and> n \<le> 90 then char_of (n + 32) else c)"

definition toLowerCase :: "string \<Rightarrow> string" where
  "toLowerCase s = map lower_char s"

text \<open>\<open>s.split(sep)\<close>: the pieces of \<open>s\<close> between the occurrences of \<open>sep\<close>, found from
  the left; an empty separator cuts between all characters.\<close>

function split_acc :: "string \<Rightarrow> string \<Rightarrow> string \<Rightarrow> string list" where
  "split_acc sep acc [] = [rev acc]"
| "split_acc sep acc (c # cs) =
     (if sep \<noteq> [] \<and> prefix sep (c # cs)
      then rev acc # split_acc sep [] (drop (length sep) (c # cs))
      else split_acc sep (c # acc) cs)"
  by pat_completeness auto
termination
  by (relation "measure (\<lambda>(sep, acc, s). length s)") auto

definition split :: "string \<Rightarrow> string \<Rightarrow> string list" where
  "split s sep = (if sep = [] then map (\<lambda>c. [c]) s else split_acc sep [] s)"

text \<open>\<open>xs.pop()\<close> as an expression: the last element, \<open>undefined\<close> on an empty array.\<close>

definition pop :: "'a list \<Rightarrow> 'a option" where
  "pop xs = (if xs = [] then None else Some (last xs))"

section \<open>Asynchronous operations\<close>

text \<open>
  An operation runs on the world and returns a value, throws, or never settles.
\<close>

datatype 'a res = Val 'a | Throw string | Hang

type_synonym 'a act = "world \<Rightarrow> 'a res \<times> world"

definition ret :: "'a \<Rightarrow> 'a act" where
  "ret x w = (Val x, w)"

definition throw :: "string \<Rightarrow> 'a act" where
  "throw e w = (Throw e, w)"

definition bnd :: "'a act \<Rightarrow> ('a \<Rightarrow> 'b act) \<Rightarrow> 'b act" where
  "bnd m f w =
     (case m w of
        (Val x, w') \<Rightarrow> f x w'
      | (Throw e, w') \<Rightarrow> (Throw e, w')
      | (Hang, w') \<Rightarrow> (Hang, w'))"

definition emit :: "event \<Rightarrow> world \<Rightarrow> world" where
  "emit e w = w\<lparr>trace := trace w @ [e]\<rparr>"

definition log :: "string \<Rightarrow> unit act" where
  "log s w = (Val (), emit (Log s) w)"

section \<open>The route handler\<close>

text \<open>\<open>resolve\<close> and \<open>reject\<close> of the returned promise: only the first call settles it.\<close>

definition resolve :: "string option \<Rightarrow> world \<Rightarrow> world" where
  "resolve v w = (if result w = Pending then w\<lparr>result := Fulfilled v\<rparr> else w)"

definition reject :: "string \<Rightarrow> world \<Rightarrow> world" where
  "reject e w = (if result w = Pending then w\<lparr>result := Rejected e\<rparr> else w)"

text \<open>\<open>browser.browser()?.close()\<close>, not awaited. The context is made by
  \<open>browser.newContext\<close> in \<open>launchBrowser\<close>, so its \<open>browser()\<close> is the browser that
  was launched, never \<open>null\<close>.\<close>

definition browserClose :: "world \<Rightarrow> world" where
  "browserClose w = emit BrowserClose (w\<lparr>closes := closes w + 1\<rparr>)"

text \<open>\<open>controller.abort()\<close>: the signal changes, and its listeners run, only on the
  first call.\<close>

definition controllerAbort :: "world \<Rightarrow> world" where
  "controllerAbort w =
     emit ControllerAbort
       (if signal_aborted w then w
        else w\<lparr>signal_aborted := True, abort_events := abort_events w + 1\<rparr>)"

definition routeAbort :: "request \<Rightarrow> world \<Rightarrow> world" where
  "routeAbort r w = emit (RouteAbort r) (w\<lparr>routes_aborted := routes_aborted w @ [r]\<rparr>)"

definition onNewToken :: "string \<Rightarrow> world \<Rightarrow> world" where
  "onNewToken t w = emit (OnNewToken t) (w\<lparr>new_tokens := new_tokens w @ [t]\<rparr>)"

text \<open>
  The callback of \<open>page.route('**/api/generate/v2/**', ...)\<close>. Reading \<open>split\<close> of an
  absent header and \<open>token\<close> of \<open>null\<close> are TypeErrors, a body that does not parse makes
  \<open>postDataJSON\<close> throw; the \<open>catch\<close> turns each into \<open>reject(err)\<close>.
\<close>

definition routeHandler :: "request \<Rightarrow> world \<Rightarrow> world" where
  "routeHandler r w =
     (let w1 = emit (Log ''hCaptcha token received. Closing browser'') w;
          w2 = routeAbort r w1;
          w3 = browserClose w2;
          w4 = controllerAbort w3
      in case authorization r of
           None \<Rightarrow> reject ''Cannot read properties of undefined (reading 'split')'' w4
         | Some h \<Rightarrow>
             (let newAuthToken = pop (split h ''Bearer '');
                  w5 = (case newAuthToken of
                          None \<Rightarrow> w4
                        | Some t \<Rightarrow> if t \<noteq> [] then onNewToken t w4 else w4)
              in case postData r of
                   NoPostData \<Rightarrow> reject ''Cannot read properties of null (reading 'token')'' w5
                 | InvalidJson \<Rightarrow> reject ''POST data is not a valid JSON object'' w5
                 | JsonObject t \<Rightarrow> resolve t w5))"

text \<open>The handler runs once for each request that matches, in the order they arrive.\<close>

definition handleAll :: "request list \<Rightarrow> world \<Rightarrow> world" where
  "handleAll rs w = foldl (\<lambda>w' r. routeHandler r w') w rs"

text \<open>A suspension: once the route is registered, the requests that arrive during it
  are handled.\<close>

definition suspend :: "world \<Rightarrow> world" where
  "suspend w =
     (if routed w then
        (case arrivals w of
           [] \<Rightarrow> w
         | rs # rest \<Rightarrow> handleAll rs (w\<lparr>arrivals := rest\<rparr>))
      else w)"

section \<open>Operations of the page, the solver and the file system\<close>

definition take_reply :: "'a reply list \<Rightarrow> 'a res \<times> 'a reply list" where
  "take_reply q =
     (case q of
        [] \<Rightarrow> (Hang, [])
      | Fulfil v # rest \<Rightarrow> (Val v, rest)
      | Reject e # rest \<Rightarrow> (Throw e, rest))"

text \<open>An awaited call: it is issued, the caller is suspended, the environment answers.\<close>

definition await_unit :: "event \<Rightarrow> unit act" where
  "await_unit e w =
     (let w1 = suspend (emit e w) in
      case take_reply (unit_replies w1) of (r, q) \<Rightarrow> (r, w1\<lparr>unit_replies := q\<rparr>))"

definition await_text :: "event \<Rightarrow> string act" where
  "await_text e w =
     (let w1 = suspend (emit e w) in
      case take_reply (text_replies w1) of (r, q) \<Rightarrow> (r, w1\<lparr>text_replies := q\<rparr>))"

definition await_buffer :: "event \<Rightarrow> string act" where
  "await_buffer e w =
     (let w1 = suspend (emit e w) in
      case take_reply (buffer_replies w1) of (r, q) \<Rightarrow> (r, w1\<lparr>buffer_replies := q\<rparr>))"

definition await_box :: "event \<Rightarrow> bbox option act" where
  "await_box e w =
     (let w1 = suspend (emit e w) in
      case take_reply (box_replies w1) of (r, q) \<Rightarrow> (r, w1\<lparr>box_replies := q\<rparr>))"

definition await_solver :: "event \<Rightarrow> captcha act" where
  "await_solver e w =
     (let w1 = suspend (emit e w) in
      case take_reply (solver_replies w1) of (r, q) \<Rightarrow> (r, w1\<lparr>solver_replies := q\<rparr>))"

text \<open>\<open>await import(name)\<close> of a built-in module: a suspension that ends.\<close>

definition importModule :: "string \<Rightarrow> unit act" where
  "importModule name w = (Val (), suspend (emit (Import name) w))"

text \<open>Modelled from the spec: \<open>sleep\<close> of \<open>@/lib/utils\<close> is not among the sources;
  the spec calls it a pause, so it is a suspension that ends.\<close>

definition sleep :: "real \<Rightarrow> unit act" where
  "sleep t w = (Val (), suspend (emit (Sleep t) w))"

text \<open>Modelled from the spec: \<open>waitForRequests\<close> of \<open>@/lib/utils\<close> is not among the
  sources. The spec has it pause until the network of the page is quiet, and has every
  wait in flight observe the cancellation signal; the code expects the message
  \<open>AbortError\<close> for that. Any other way it ends is the environment's answer.\<close>

definition waitForRequests :: "unit act" where
  "waitForRequests w =
     (let w1 = suspend (emit WaitForRequests w) in
      if signal_aborted w1 then (Throw ''AbortError'', w1)
      else case take_reply (unit_replies w1) of (r, q) \<Rightarrow> (r, w1\<lparr>unit_replies := q\<rparr>))"

definition unhandledRejection :: "string \<Rightarrow> world \<Rightarrow> world" where
  "unhandledRejection e w = w\<lparr>unhandled := unhandled w @ [e]\<rparr>"

text \<open>
  A call whose promise is dropped. The caller goes on at once and nothing it does later
  depends on how the call settles, so the call is run to its end where it is started;
  a rejection is left unhandled.
\<close>

definition detached :: "unit act \<Rightarrow> world \<Rightarrow> world" where
  "detached m w =
     (case m w of
        (Throw e, w') \<Rightarrow> unhandledRejection e w'
      | (Val _, w') \<Rightarrow> w'
      | (Hang, w') \<Rightarrow> w')"

text \<open>\<open>solver.badReport(id)\<close>: the call is made and its promise dropped.\<close>

definition badReport :: "string \<Rightarrow> unit act" where
  "badReport i w = (Val (), emit (BadReport i) w)"

section \<open>click\<close>

definition box_target :: "bbox option \<Rightarrow> ghost_target" where
  "box_target b =
     (case b of
        None \<Rightarrow> GNull
      | Some b \<Rightarrow> GBox (box_x b) (box_y b) (Some (box_width b)) (Some (box_height b)))"

text \<open>
  \<open>click(cursor, ghostCursorEnabled, target, position?)\<close>; \<open>cursor\<close> says whether the
  cursor is defined, \<open>isPage(target)\<close> is \<open>target = TPage\<close>. With a position and a
  \<open>null\<close> bounding box, \<open>pos.x\<close> is a TypeError.
\<close>

definition click :: "bool \<Rightarrow> bool \<Rightarrow> target \<Rightarrow> (real \<times> real) option \<Rightarrow> unit act" where
  "click cursor ghostCursorEnabled target position =
     (if ghostCursorEnabled \<and> cursor then
        bnd (case target of
               TPage \<Rightarrow> ret (GBox 0 0 None None)
             | TLocator l \<Rightarrow> bnd (await_box (BoundingBox l)) (\<lambda>b. ret (box_target b)))
          (\<lambda>pos.
             case position of
               None \<Rightarrow> await_unit (GhostClick pos)
             | Some (dx, dy) \<Rightarrow>
                 (case pos of
                    GNull \<Rightarrow> throw ''Cannot read properties of null (reading 'x')''
                  | GBox x y _ _ \<Rightarrow> await_unit (GhostClick (GBox (x + dx) (y + dy) None None))))
      else
        (case target of
           TPage \<Rightarrow>
             await_unit (PageMouseClick (case position of None \<Rightarrow> 0 | Some (dx, dy) \<Rightarrow> dx)
                                        (case position of None \<Rightarrow> 0 | Some (dx, dy) \<Rightarrow> dy))
         | TLocator l \<Rightarrow> await_unit (LocatorClick l position)))"

section \<open>The challenge loop\<close>

text \<open>One pass of the body of \<open>for (let j = 0; j < 3; j++)\<close>, up to the \<open>break\<close>
  (the dash of the instruction text is written in ASCII).\<close>

definition solveAttempt :: "bool \<Rightarrow> captcha act" where
  "solveAttempt drag =
     bnd (log ''Sending the CAPTCHA to 2Captcha'') (\<lambda>_.
     bnd (await_buffer Screenshot) (\<lambda>shot.
     bnd (if drag
          then bnd (await_buffer ReadFile) (\<lambda>img.
                 ret \<lparr>body = shot,
                      textinstructions =
                        Some ''CLICK on the shapes at their edge or center as shown above - please be precise!'',
                      imginstructions = Some img\<rparr>)
          else ret \<lparr>body = shot, textinstructions = None, imginstructions = None\<rparr>) (\<lambda>payload.
     await_solver (Coordinates payload))))"

text \<open>
  The retry loop from \<open>j\<close> on. \<open>captcha\<close> is \<open>undefined\<close> (\<open>None\<close>) if the loop ends
  without an assignment.
\<close>

function solveLoop :: "nat \<Rightarrow> bool \<Rightarrow> captcha option act" where
  "solveLoop j drag w =
     (if j < 3 then
        (case solveAttempt drag w of
           (Val c, w') \<Rightarrow> (Val (Some c), w')
         | (Throw err, w') \<Rightarrow>
             (let w'' = emit (Log err) w' in
              if j \<noteq> 2 then solveLoop (j + 1) drag (emit (Log ''Retrying...'') w'')
              else (Throw err, w''))
         | (Hang, w') \<Rightarrow> (Hang, w'))
      else (Val None, w))"
  by pat_completeness auto
termination
  by (relation "measure (\<lambda>(j, drag, w). 3 - j)") auto

declare solveLoop.simps [simp del]

text \<open>
  \<open>for (let i = 0; i < captcha.data.length; i += 2)\<close>: the points are taken two by two.
  On a last point without a partner \<open>data2\<close> is \<open>undefined\<close> and \<open>data2.x\<close> a TypeError.
\<close>

fun dragPairs :: "bbox \<Rightarrow> point list \<Rightarrow> unit act" where
  "dragPairs challengeBox [] = ret ()"
| "dragPairs challengeBox [data1] =
     bnd (await_unit (MouseMove (box_x challengeBox + px data1) (box_y challengeBox + py data1) None)) (\<lambda>_.
     bnd (await_unit MouseDown) (\<lambda>_.
     bnd (sleep 1.1) (\<lambda>_.
     throw ''Cannot read properties of undefined (reading 'x')'')))"
| "dragPairs challengeBox (data1 # data2 # rest) =
     bnd (await_unit (MouseMove (box_x challengeBox + px data1) (box_y challengeBox + py data1) None)) (\<lambda>_.
     bnd (await_unit MouseDown) (\<lambda>_.
     bnd (sleep 1.1) (\<lambda>_.
     bnd (await_unit (MouseMove (box_x challengeBox + px data2) (box_y challengeBox + py data2) (Some 30))) (\<lambda>_.
     bnd (await_unit MouseUp) (\<lambda>_.
     dragPairs challengeBox rest)))))"

text \<open>\<open>for (const data of captcha.data) await click(..., challenge, {x: +data.x, y: +data.y})\<close>.\<close>

fun clickPoints :: "bool \<Rightarrow> bool \<Rightarrow> point list \<Rightarrow> unit act" where
  "clickPoints cursor ghostCursorEnabled [] = ret ()"
| "clickPoints cursor ghostCursorEnabled (d # ds) =
     bnd (click cursor ghostCursorEnabled (TLocator ChallengeContainer) (Some (px d, py d))) (\<lambda>_.
     clickPoints cursor ghostCursorEnabled ds)"

text \<open>
  \<open>click(..., frame.locator('.button-submit')).catch(e => ...)\<close>, not awaited: on a
  message with \<open>viewport\<close> the Create button is clicked, again without waiting, any other
  error is thrown again from the handler, into a promise nobody holds.
\<close>

definition submitClick :: "bool \<Rightarrow> bool \<Rightarrow> world \<Rightarrow> world" where
  "submitClick cursor ghostCursorEnabled w =
     (case click cursor ghostCursorEnabled (TLocator SubmitButton) None w of
        (Throw e, w') \<Rightarrow>
          (if includes_str e ''viewport''
           then detached (click cursor ghostCursorEnabled (TLocator CreateButton) None) w'
           else unhandledRejection e w')
      | (Val _, w') \<Rightarrow> w'
      | (Hang, w') \<Rightarrow> w')"

text \<open>
  The second half of the body of \<open>while (true)\<close>, from \<open>if (drag)\<close> to the submit
  click: the solution is applied. It returns the value of \<open>wait\<close> for the next pass
  (\<open>false\<close> after the \<open>continue\<close> of an odd solution), or throws.
\<close>

definition acting :: "bool \<Rightarrow> bool \<Rightarrow> bool \<Rightarrow> bool \<Rightarrow> captcha option \<Rightarrow> bool act" where
  "acting cursor ghostCursorEnabled wait drag captcha =
     (if drag then
        bnd (await_box (BoundingBox ChallengeContainer)) (\<lambda>challengeBox.
          case challengeBox of
            None \<Rightarrow> throw ''.challenge-container boundingBox is null!''
          | Some box \<Rightarrow>
              (case captcha of
                 None \<Rightarrow> throw ''Cannot read properties of undefined (reading 'data')''
               | Some c \<Rightarrow>
                   if length (cdata c) mod 2 \<noteq> 0 then
                     bnd (log ''Solution does not have even amount of points required for dragging. Requesting new solution...'') (\<lambda>_.
                     bnd (badReport (cid c)) (\<lambda>_.
                     ret False))
                   else
                     bnd (dragPairs box (cdata c)) (\<lambda>_.
                     (\<lambda>w. (Val True, submitClick cursor ghostCursorEnabled w)))))
      else
        (case captcha of
           None \<Rightarrow> throw ''Cannot read properties of undefined (reading 'data')''
         | Some c \<Rightarrow>
             bnd (clickPoints cursor ghostCursorEnabled (cdata c)) (\<lambda>_.
             (\<lambda>w. (Val wait, submitClick cursor ghostCursorEnabled w)))))"

text \<open>One pass of the body of \<open>while (true)\<close>: wait, detect, solve, act.\<close>

definition loopBody :: "bool \<Rightarrow> bool \<Rightarrow> bool \<Rightarrow> bool act" where
  "loopBody cursor ghostCursorEnabled wait =
     bnd (if wait then waitForRequests else ret ()) (\<lambda>_.
     bnd (await_text InnerText) (\<lambda>text.
     let drag = includes_str (toLowerCase text) ''drag'' in
     bnd (solveLoop 0 drag) (\<lambda>captcha.
     acting cursor ghostCursorEnabled wait drag captcha)))"

section \<open>The loop ends with the environment's script\<close>

text \<open>
  Every pass of the loop reads the prompt text once, so the loop stops, by an
  exception or on an operation that never settles, when the script runs out of
  answers. The handler and the operations of the loop work on separate parts of the
  world; the steps of the loop's side are collected in \<open>reach\<close>.
\<close>

subsection \<open>What the handler leaves alone\<close>

definition loop_side ::
  "world \<Rightarrow> unit reply list \<times> string reply list \<times> string reply list \<times> bbox option reply list \<times>
     captcha reply list \<times> request list list \<times> bool \<times> string list" where
  "loop_side w = (unit_replies w, text_replies w, buffer_replies w, box_replies w,
     solver_replies w, arrivals w, routed w, unhandled w)"

lemma loop_side_emit [simp]: "loop_side (emit e w) = loop_side w"
  by (simp add: loop_side_def emit_def)

lemma loop_side_routeAbort [simp]: "loop_side (routeAbort r w) = loop_side w"
  by (simp add: loop_side_def routeAbort_def emit_def)

lemma loop_side_browserClose [simp]: "loop_side (browserClose w) = loop_side w"
  by (simp add: loop_side_def browserClose_def emit_def)

lemma loop_side_controllerAbort [simp]: "loop_side (controllerAbort w) = loop_side w"
  by (simp add: loop_side_def controllerAbort_def emit_def)

lemma loop_side_onNewToken [simp]: "loop_side (onNewToken t w) = loop_side w"
  by (simp add: loop_side_def onNewToken_def emit_def)

lemma loop_side_resolve [simp]: "loop_side (resolve v w) = loop_side w"
  by (simp add: loop_side_def resolve_def)

lemma loop_side_reject [simp]: "loop_side (reject e w) = loop_side w"
  by (simp add: loop_side_def reject_def)

lemma loop_side_routeHandler [simp]: "loop_side (routeHandler r w) = loop_side w"
  by (simp add: routeHandler_def Let_def split: option.splits post_data.splits)

lemma loop_side_handleAll [simp]: "loop_side (handleAll rs w) = loop_side w"
  unfolding handleAll_def by (induction rs arbitrary: w) simp_all

lemma loop_sideD:
  assumes "loop_side w' = loop_side w"
  shows "unit_replies w' = unit_replies w" and "text_replies w' = text_replies w"
    and "buffer_replies w' = buffer_replies w" and "box_replies w' = box_replies w"
    and "solver_replies w' = solver_replies w" and "arrivals w' = arrivals w"
    and "routed w' = routed w" and "unhandled w' = unhandled w"
  using assms by (simp_all add: loop_side_def)

lemmas handleAll_fields [simp] = loop_sideD [OF loop_side_handleAll]

lemmas emit_fields [simp] = loop_sideD [OF loop_side_emit]

lemma suspend_text [simp]: "text_replies (suspend w) = text_replies w"
  by (simp add: suspend_def split: list.splits)

lemma suspend_routed [simp]: "routed (suspend w) = routed w"
  by (simp add: suspend_def split: list.splits)

text \<open>One step of the loop's side of the run: an event, a suspension, an answer taken
  from a queue, a rejection left unhandled.\<close>

definition basic :: "world \<Rightarrow> world \<Rightarrow> bool" where
  "basic w w' \<longleftrightarrow>
     (\<exists>e. w' = emit e w) \<or> w' = suspend w \<or>
     (\<exists>q. w' = w\<lparr>unit_replies := q\<rparr>) \<or>
     (\<exists>q. length q \<le> length (text_replies w) \<and> w' = w\<lparr>text_replies := q\<rparr>) \<or>
     (\<exists>q. w' = w\<lparr>buffer_replies := q\<rparr>) \<or>
     (\<exists>q. w' = w\<lparr>box_replies := q\<rparr>) \<or>
     (\<exists>q. w' = w\<lparr>solver_replies := q\<rparr>) \<or>
     (\<exists>e. w' = unhandledRejection e w)"

definition reach :: "world \<Rightarrow> world \<Rightarrow> bool" where
  "reach = basic\<^sup>*\<^sup>*"

lemma reach_refl: "reach w w"
  by (simp add: reach_def)

lemma reach_trans: "reach b c \<Longrightarrow> reach a b \<Longrightarrow> reach a c"
  by (simp add: reach_def)

lemma reach_step: "basic w' w'' \<Longrightarrow> reach w w' \<Longrightarrow> reach w w''"
  unfolding reach_def by (rule rtranclp.rtrancl_into_rtrancl)

lemma reach_emit: "reach w w' \<Longrightarrow> reach w (emit e w')"
  by (rule reach_step) (unfold basic_def, blast)

lemma reach_suspend: "reach w w' \<Longrightarrow> reach w (suspend w')"
  by (rule reach_step) (unfold basic_def, blast)

lemma reach_unit: "reach w w' \<Longrightarrow> reach w (w'\<lparr>unit_replies := q\<rparr>)"
  by (rule reach_step) (unfold basic_def, blast)

lemma reach_text:
  "reach w w' \<Longrightarrow> length q \<le> length (text_replies w') \<Longrightarrow> reach w (w'\<lparr>text_replies := q\<rparr>)"
  by (rule reach_step) (unfold basic_def, blast)

lemma reach_buffer: "reach w w' \<Longrightarrow> reach w (w'\<lparr>buffer_replies := q\<rparr>)"
  by (rule reach_step) (unfold basic_def, blast)

lemma reach_box: "reach w w' \<Longrightarrow> reach w (w'\<lparr>box_replies := q\<rparr>)"
  by (rule reach_step) (unfold basic_def, blast)

lemma reach_solver: "reach w w' \<Longrightarrow> reach w (w'\<lparr>solver_replies := q\<rparr>)"
  by (rule reach_step) (unfold basic_def, blast)

lemma reach_unhandled: "reach w w' \<Longrightarrow> reach w (unhandledRejection e w')"
  by (rule reach_step) (unfold basic_def, blast)

definition frame :: "'a act \<Rightarrow> bool" where
  "frame m = (\<forall>w. reach w (snd (m w)))"

lemma frameD: "frame m \<Longrightarrow> m w = (r, w') \<Longrightarrow> reach w w'"
  by (metis frame_def snd_conv)

lemma frame_ret: "frame (ret x)"
  by (simp add: frame_def ret_def reach_refl)

lemma frame_throw: "frame (throw e)"
  by (simp add: frame_def throw_def reach_refl)

lemma frame_bnd: "frame m \<Longrightarrow> (\<And>x. frame (f x)) \<Longrightarrow> frame (bnd m f)"
  unfolding frame_def bnd_def
proof (intro allI)
  fix w
  assume m: "\<forall>w. reach w (snd (m w))" and f: "\<And>x. \<forall>w. reach w (snd (f x w))"
  obtain r w1 where mw: "m w = (r, w1)" by (cases "m w")
  have r1: "reach w w1" using m mw by (metis snd_conv)
  show "reach w (snd (case m w of (Val x, w') \<Rightarrow> f x w' | (Throw e, w') \<Rightarrow> (Throw e, w') | (Hang, w') \<Rightarrow> (Hang, w')))"
  proof (cases r)
    case (Val x)
    have "reach w1 (snd (f x w1))" using f by blast
    then show ?thesis using mw Val r1 by (simp add: reach_trans)
  next
    case (Throw e)
    then show ?thesis using mw r1 by simp
  next
    case Hang
    then show ?thesis using mw r1 by simp
  qed
qed

lemma frame_log: "frame (log s)"
  by (simp add: frame_def log_def reach_emit reach_refl)

lemma frame_badReport: "frame (badReport i)"
  by (simp add: frame_def badReport_def reach_emit reach_refl)

lemma frame_importModule: "frame (importModule n)"
  by (simp add: frame_def importModule_def reach_emit reach_suspend reach_refl)

lemma frame_sleep: "frame (sleep t)"
  by (simp add: frame_def sleep_def reach_emit reach_suspend reach_refl)

lemma take_reply_length: "take_reply q = (r, q') \<Longrightarrow> length q' \<le> length q"
proof (cases q)
  case Nil
  then show "take_reply q = (r, q') \<Longrightarrow> length q' \<le> length q"
    by (simp add: take_reply_def)
next
  case (Cons a rest)
  then show "take_reply q = (r, q') \<Longrightarrow> length q' \<le> length q"
    by (cases a) (auto simp: take_reply_def)
qed

lemma frame_await_unit: "frame (await_unit e)"
  by (auto simp: frame_def await_unit_def Let_def split: prod.splits
      intro!: reach_unit reach_suspend reach_emit reach_refl)

lemma frame_await_text: "frame (await_text e)"
  by (auto simp: frame_def await_text_def Let_def split: prod.splits
      intro!: reach_text reach_suspend reach_emit reach_refl dest: take_reply_length)

lemma frame_await_buffer: "frame (await_buffer e)"
  by (auto simp: frame_def await_buffer_def Let_def split: prod.splits
      intro!: reach_buffer reach_suspend reach_emit reach_refl)

lemma frame_await_box: "frame (await_box e)"
  by (auto simp: frame_def await_box_def Let_def split: prod.splits
      intro!: reach_box reach_suspend reach_emit reach_refl)

lemma frame_await_solver: "frame (await_solver e)"
  by (auto simp: frame_def await_solver_def Let_def split: prod.splits
      intro!: reach_solver reach_suspend reach_emit reach_refl)

lemma frame_waitForRequests: "frame waitForRequests"
  by (auto simp: frame_def waitForRequests_def Let_def split: prod.splits
      intro!: reach_unit reach_suspend reach_emit reach_refl)

lemmas frame_prims = frame_ret frame_throw frame_log frame_badReport frame_importModule
  frame_sleep frame_await_unit frame_await_text frame_await_buffer frame_await_box
  frame_await_solver frame_waitForRequests

lemma frame_click: "frame (click cursor ghost target position)"
  unfolding click_def
  by (auto intro!: frame_bnd frame_prims split: target.splits option.splits ghost_target.splits prod.splits)

lemma frame_solveAttempt: "frame (solveAttempt drag)"
  unfolding solveAttempt_def
  by (auto intro!: frame_bnd frame_prims)


lemma frame_solveLoop: "frame (solveLoop j drag)"
  unfolding frame_def
proof
  fix w
  show "reach w (snd (solveLoop j drag w))"
  proof (induction j drag w rule: solveLoop.induct)
    case (1 j drag w)
    obtain r w1 where a: "solveAttempt drag w = (r, w1)" by (cases "solveAttempt drag w")
    have r1: "reach w w1" using frame_solveAttempt a by (rule frameD)
    show ?case
    proof (cases "j < 3")
      case False
      then show ?thesis by (simp add: solveLoop.simps [of j drag w] reach_refl)
    next
      case True
      show ?thesis
      proof (cases r)
        case (Val c)
        then show ?thesis using True a r1 by (simp add: solveLoop.simps [of j drag w])
      next
        case Hang
        then show ?thesis using True a r1 by (simp add: solveLoop.simps [of j drag w])
      next
        case (Throw err)
        show ?thesis
        proof (cases "j = 2")
          case True
          then show ?thesis using a Throw r1 by (simp add: solveLoop.simps [of 2 drag w] reach_emit)
        next
          case False
          have r2: "reach w (emit (Log ''Retrying...'') (emit (Log err) w1))"
            using r1 by (intro reach_emit)
          have "reach (emit (Log ''Retrying...'') (emit (Log err) w1))
                  (snd (solveLoop (j + 1) drag (emit (Log ''Retrying...'') (emit (Log err) w1))))"
            using "1.IH" [OF True a [symmetric] Throw refl False] .
          then show ?thesis using True False a Throw r2
            by (simp add: solveLoop.simps [of j drag w] reach_trans)
        qed
      qed
    qed
  qed
qed

lemma frame_dragPairs: "frame (dragPairs box ps)"
  by (induction box ps rule: dragPairs.induct) (auto intro!: frame_bnd frame_prims)

lemma frame_clickPoints: "frame (clickPoints cursor ghost ps)"
  by (induction ps) (auto intro!: frame_bnd frame_prims frame_click)

lemma reach_detached: "frame m \<Longrightarrow> reach w (detached m w)"
  by (auto simp: detached_def split: prod.splits res.splits
      intro!: reach_unhandled dest: frameD)

lemma reach_submitClick: "reach w (submitClick cursor ghost w)"
proof -
  obtain r w1 where c: "click cursor ghost (TLocator SubmitButton) None w = (r, w1)"
    by (cases "click cursor ghost (TLocator SubmitButton) None w")
  have r1: "reach w w1" using frame_click c by (rule frameD)
  have r2: "reach w1 (detached (click cursor ghost (TLocator CreateButton) None) w1)"
    by (rule reach_detached [OF frame_click])
  show ?thesis
    using c r1 r2 by (cases r) (auto simp: submitClick_def intro: reach_unhandled reach_trans)
qed

lemma frame_submit: "frame (\<lambda>w. (Val b, submitClick cursor ghost w))"
  by (simp add: frame_def reach_submitClick)

lemma frame_acting: "frame (acting cursor ghost wait drag captcha)"
  unfolding acting_def
  by (auto intro!: frame_bnd frame_prims frame_dragPairs frame_clickPoints frame_submit
      split: option.splits)

lemma frame_loopBody: "frame (loopBody cursor ghost wait)"
  unfolding loopBody_def Let_def
  by (auto intro!: frame_bnd frame_prims frame_solveLoop frame_acting)

lemma basic_text_length: "basic w w' \<Longrightarrow> length (text_replies w') \<le> length (text_replies w)"
  by (auto simp: basic_def unhandledRejection_def)

lemma reach_text_length: "reach w w' \<Longrightarrow> length (text_replies w') \<le> length (text_replies w)"
  unfolding reach_def
  by (induction rule: rtranclp_induct) (auto dest: basic_text_length)

lemma await_text_pops:
  "await_text e w = (Val x, w') \<Longrightarrow> length (text_replies w') < length (text_replies w)"
  by (auto simp: await_text_def Let_def take_reply_def emit_def
      split: prod.splits list.splits reply.splits)

lemma bnd_Val:
  "bnd m f w = (Val y, w') \<Longrightarrow> \<exists>x w1. m w = (Val x, w1) \<and> f x w1 = (Val y, w')"
  by (auto simp: bnd_def split: prod.splits res.splits)

lemma loopBody_pops:
  assumes "loopBody cursor ghost wait w = (Val b, w')"
  shows "length (text_replies w') < length (text_replies w)"
proof -
  let ?A = "if wait then waitForRequests else ret ()"
  let ?K = "\<lambda>text. let drag = includes_str (toLowerCase text) ''drag'' in
     bnd (solveLoop 0 drag) (\<lambda>captcha. acting cursor ghost wait drag captcha)"
  have fA: "frame ?A" by (simp add: frame_prims)
  have fK: "\<And>t. frame (?K t)"
    by (auto simp: Let_def intro!: frame_bnd frame_solveLoop frame_acting)
  from assms have "bnd ?A (\<lambda>_. bnd (await_text InnerText) ?K) w = (Val b, w')"
    by (simp add: loopBody_def)
  then obtain u w1 where 1: "?A w = (Val u, w1)"
    and 2: "bnd (await_text InnerText) ?K w1 = (Val b, w')"
    by (blast dest: bnd_Val)
  from 2 obtain t w2 where 3: "await_text InnerText w1 = (Val t, w2)"
    and 4: "?K t w2 = (Val b, w')"
    by (blast dest: bnd_Val)
  have "length (text_replies w1) \<le> length (text_replies w)"
    using frameD [OF fA 1] by (rule reach_text_length)
  moreover have "length (text_replies w2) < length (text_replies w1)"
    using 3 by (rule await_text_pops)
  moreover have "length (text_replies w') \<le> length (text_replies w2)"
    using frameD [OF fK 4] by (rule reach_text_length)
  ultimately show ?thesis by linarith
qed

text \<open>\<open>while (true)\<close>: it has no \<open>break\<close>, so it ends only by an exception, or not at all.\<close>

function challengeLoop :: "bool \<Rightarrow> bool \<Rightarrow> bool \<Rightarrow> unit act" where
  "challengeLoop cursor ghostCursorEnabled wait w =
     (case loopBody cursor ghostCursorEnabled wait w of
        (Val wait', w') \<Rightarrow> challengeLoop cursor ghostCursorEnabled wait' w'
      | (Throw e, w') \<Rightarrow> (Throw e, w')
      | (Hang, w') \<Rightarrow> (Hang, w'))"
  by pat_completeness auto
termination challengeLoop
proof (relation "measure (\<lambda>(cursor, ghost, wait, w). length (text_replies w))")
  show "wf (measure (\<lambda>(cursor, ghost, wait, w). length (text_replies w)))"
    by (rule wf_measure)
next
  fix cursor ghost wait w x w' wait'
  assume a: "(x, w') = loopBody cursor ghost wait w" and b: "x = Val wait'"
  from a b have "loopBody cursor ghost wait w = (Val wait', w')" by simp
  then have "length (text_replies w') < length (text_replies w)" by (rule loopBody_pops)
  then show "((cursor, ghost, wait', w'), (cursor, ghost, wait, w))
             \<in> measure (\<lambda>(cursor, ghost, wait, w). length (text_replies w))"
    by (simp only: in_measure split_conv)
qed

declare challengeLoop.simps [simp del]

section \<open>getCaptchaToken\<close>

text \<open>
  \<open>launchBrowser\<close>: the browser is launched, a context is made in it and the cookies
  are added. The launch arguments and the list of cookies, built without a branch that
  can fail, are left out.
\<close>

definition launchBrowser :: "unit act" where
  "launchBrowser =
     bnd (await_unit Launch) (\<lambda>_.
     bnd (await_unit NewContext) (\<lambda>_.
     await_unit AddCookies))"

text \<open>\<open>try { await m } catch (e) { }\<close>.\<close>

definition ignoring :: "unit act \<Rightarrow> unit act" where
  "ignoring m w = (case m w of (Throw e, w') \<Rightarrow> (Val (), w') | (r, w') \<Rightarrow> (r, w'))"

text \<open>
  The first part of \<open>getCaptchaToken\<close>, up to the unawaited click on the Create
  button. It returns whether \<open>cursor\<close> is defined.
\<close>

definition triggering :: "bool \<Rightarrow> bool act" where
  "triggering ghostCursorEnabled =
     bnd (log ''CAPTCHA required. Launching browser...'') (\<lambda>_.
     bnd launchBrowser (\<lambda>_.
     bnd (await_unit NewPage) (\<lambda>_.
     bnd (await_unit Goto) (\<lambda>_.
     bnd (log ''Waiting for Suno interface to load'') (\<lambda>_.
     bnd (await_unit WaitForResponse) (\<lambda>_.
     bnd (if ghostCursorEnabled then bnd (await_unit CreateCursor) (\<lambda>_. ret True)
          else ret False) (\<lambda>cursor.
     bnd (log ''Triggering the CAPTCHA'') (\<lambda>_.
     bnd (ignoring (await_unit CloseClick)) (\<lambda>_.
     bnd (click cursor ghostCursorEnabled (TLocator Textarea) None) (\<lambda>_.
     bnd (await_unit (PressSequentially ''Lorem ipsum'')) (\<lambda>_.
     bnd (\<lambda>w. (Val (), detached (click cursor ghostCursorEnabled (TLocator CreateButton) None) w)) (\<lambda>_.
     ret cursor))))))))))))"

text \<open>How the promise of the challenge loop ends.\<close>

datatype loop_end = LoopResolved | LoopRejected string | LoopPending

text \<open>
  \<open>new Promise<void>(async (resolve, reject) => { try { ... } catch (e) { ... } })\<close>:
  the body of the \<open>try\<close> is the two imports and the loop; the \<open>catch\<close> resolves on a
  message of cancellation and rejects on any other.
\<close>

definition tryBlock :: "bool \<Rightarrow> bool \<Rightarrow> unit act" where
  "tryBlock cursor ghostCursorEnabled =
     bnd (importModule ''fs/promises'') (\<lambda>_.
     bnd (importModule ''path'') (\<lambda>_.
     challengeLoop cursor ghostCursorEnabled True))"

definition challengeTask :: "bool \<Rightarrow> bool \<Rightarrow> world \<Rightarrow> loop_end \<times> world" where
  "challengeTask cursor ghostCursorEnabled w =
     (case tryBlock cursor ghostCursorEnabled w of
        (Throw e, w') \<Rightarrow>
          (if includes_str e ''been closed'' \<or> e = ''AbortError'' then (LoopResolved, w')
           else (LoopRejected e, w'))
      | (Val _, w') \<Rightarrow> (LoopPending, w')
      | (Hang, w') \<Rightarrow> (LoopPending, w'))"

text \<open>\<open>.catch(e => { browser.browser()?.close(); throw e; })\<close> on that promise; the
  promise it makes is dropped.\<close>

definition challengePromise :: "bool \<Rightarrow> bool \<Rightarrow> world \<Rightarrow> loop_end \<times> world" where
  "challengePromise cursor ghostCursorEnabled w =
     (case challengeTask cursor ghostCursorEnabled w of
        (LoopRejected e, w') \<Rightarrow> (LoopRejected e, unhandledRejection e (browserClose w'))
      | (LoopResolved, w') \<Rightarrow> (LoopResolved, w')
      | (LoopPending, w') \<Rightarrow> (LoopPending, w'))"

text \<open>The requests that arrive after the loop has ended are handled as well.\<close>

definition drain :: "world \<Rightarrow> world" where
  "drain w = handleAll (concat (arrivals w)) (w\<lparr>arrivals := []\<rparr>)"

text \<open>What the environment does in one run: its answers and the matching requests.\<close>

record script =
  units :: "unit reply list"
  texts :: "string reply list"
  buffers :: "string reply list"
  boxes :: "bbox option reply list"
  solutions :: "captcha reply list"
  requests :: "request list list"

definition start :: "script \<Rightarrow> world" where
  "start sc =
     \<lparr>trace = [], unit_replies = units sc, text_replies = texts sc,
      buffer_replies = buffers sc, box_replies = boxes sc, solver_replies = solutions sc,
      arrivals = requests sc, routed = False, signal_aborted = False,
      abort_events = 0, closes = 0, routes_aborted = [], new_tokens = [], result = Pending,
      unhandled = []\<rparr>"

text \<open>
  The whole function, on the world. An exception before the route is registered
  rejects the promise of the \<open>async\<close> function; afterwards that promise is the one
  the route handler settles. The loop starts, the route is registered at the loop's
  first suspension, and the run goes on until the environment's script is used up.
\<close>

definition getCaptchaTokenFrom :: "bool \<Rightarrow> world \<Rightarrow> loop_end option \<times> world" where
  "getCaptchaTokenFrom ghostCursorEnabled w =
     (case triggering ghostCursorEnabled w of
        (Throw e, w1) \<Rightarrow> (None, reject e w1)
      | (Hang, w1) \<Rightarrow> (None, w1)
      | (Val cursor, w1) \<Rightarrow>
          (case challengePromise cursor ghostCursorEnabled (w1\<lparr>routed := True\<rparr>) of
             (l, w2) \<Rightarrow> (Some l, drain w2)))"

definition getCaptchaToken :: "bool \<Rightarrow> script \<Rightarrow> world" where
  "getCaptchaToken ghostCursorEnabled sc = snd (getCaptchaTokenFrom ghostCursorEnabled (start sc))"

definition loopEnd :: "bool \<Rightarrow> script \<Rightarrow> loop_end option" where
  "loopEnd ghostCursorEnabled sc = fst (getCaptchaTokenFrom ghostCursorEnabled (start sc))"



section \<open>The interceptor's side of a run\<close>

text \<open>Two worlds agree when the handler has done the same in both, up to \<open>k\<close> more
  calls of \<open>close\<close> in the first.\<close>

definition agree :: "nat \<Rightarrow> world \<Rightarrow> world \<Rightarrow> bool" where
  "agree k w v \<longleftrightarrow>
     signal_aborted w = signal_aborted v \<and> abort_events w = abort_events v \<and>
     closes w = closes v + k \<and> routes_aborted w = routes_aborted v \<and>
     new_tokens w = new_tokens v \<and> result w = result v"

lemma agree_refl: "agree 0 w w"
  by (simp add: agree_def)

lemma agree_trans: "agree j a b \<Longrightarrow> agree k b c \<Longrightarrow> agree (j + k) a c"
  by (simp add: agree_def)

lemma agree_sym: "agree 0 a b \<Longrightarrow> agree 0 b a"
  by (simp add: agree_def)

lemma agree_emit: "agree k w v \<Longrightarrow> agree k (emit e w) (emit e' v)"
  by (simp add: agree_def emit_def)

lemma agree_routeAbort: "agree k w v \<Longrightarrow> agree k (routeAbort r w) (routeAbort r v)"
  by (simp add: agree_def routeAbort_def emit_def)

lemma agree_browserClose: "agree k w v \<Longrightarrow> agree k (browserClose w) (browserClose v)"
  by (simp add: agree_def browserClose_def emit_def)

lemma agree_controllerAbort: "agree k w v \<Longrightarrow> agree k (controllerAbort w) (controllerAbort v)"
  by (simp add: agree_def controllerAbort_def emit_def)

lemma agree_onNewToken: "agree k w v \<Longrightarrow> agree k (onNewToken t w) (onNewToken t v)"
  by (simp add: agree_def onNewToken_def emit_def)

lemma agree_resolve: "agree k w v \<Longrightarrow> agree k (resolve x w) (resolve x v)"
  by (simp add: agree_def resolve_def)

lemma agree_reject: "agree k w v \<Longrightarrow> agree k (reject e w) (reject e v)"
  by (simp add: agree_def reject_def)

lemmas agree_handler_steps = agree_emit agree_routeAbort agree_browserClose
  agree_controllerAbort agree_onNewToken agree_resolve agree_reject

lemma agree_routeHandler:
  assumes "agree k w v"
  shows "agree k (routeHandler r w) (routeHandler r v)"
proof -
  let ?w4 = "controllerAbort (browserClose (routeAbort r
               (emit (Log ''hCaptcha token received. Closing browser'') w)))"
  let ?v4 = "controllerAbort (browserClose (routeAbort r
               (emit (Log ''hCaptcha token received. Closing browser'') v)))"
  have 4: "agree k ?w4 ?v4"
    using assms by (intro agree_handler_steps)
  show ?thesis
  proof (cases "authorization r")
    case None
    then show ?thesis using 4 by (simp add: routeHandler_def agree_reject)
  next
    case (Some h)
    let ?tok = "pop (split h ''Bearer '')"
    let ?w5 = "case ?tok of None \<Rightarrow> ?w4 | Some t \<Rightarrow> if t \<noteq> [] then onNewToken t ?w4 else ?w4"
    let ?v5 = "case ?tok of None \<Rightarrow> ?v4 | Some t \<Rightarrow> if t \<noteq> [] then onNewToken t ?v4 else ?v4"
    have 5: "agree k ?w5 ?v5"
      using 4 by (auto split: option.splits intro: agree_onNewToken)
    show ?thesis
    proof (cases "postData r")
      case NoPostData
      have "agree k (reject ''Cannot read properties of null (reading 'token')'' ?w5)
              (reject ''Cannot read properties of null (reading 'token')'' ?v5)"
        using 5 by (rule agree_reject)
      then show ?thesis
        unfolding routeHandler_def Let_def Some NoPostData
        by (simp only: option.case post_data.case)
    next
      case InvalidJson
      have "agree k (reject ''POST data is not a valid JSON object'' ?w5)
              (reject ''POST data is not a valid JSON object'' ?v5)"
        using 5 by (rule agree_reject)
      then show ?thesis
        unfolding routeHandler_def Let_def Some InvalidJson
        by (simp only: option.case post_data.case)
    next
      case (JsonObject t)
      have "agree k (resolve t ?w5) (resolve t ?v5)"
        using 5 by (rule agree_resolve)
      then show ?thesis
        unfolding routeHandler_def Let_def Some JsonObject
        by (simp only: option.case post_data.case)
    qed
  qed
qed

lemma agree_handleAll: "agree k w v \<Longrightarrow> agree k (handleAll rs w) (handleAll rs v)"
  unfolding handleAll_def
  by (induction rs arbitrary: w v) (simp_all add: agree_routeHandler)

lemma handleAll_append: "handleAll (rs @ ss) w = handleAll ss (handleAll rs w)"
  by (simp add: handleAll_def)

lemma agree_arrivals: "agree 0 (w\<lparr>arrivals := a\<rparr>) w"
  by (simp add: agree_def)

lemma agree_drain:
  assumes "agree k w v" and "arrivals w = arrivals v"
  shows "agree k (drain w) (drain v)"
proof -
  have "agree k (w\<lparr>arrivals := []\<rparr>) (v\<lparr>arrivals := []\<rparr>)"
    using assms(1) by (simp add: agree_def)
  then show ?thesis
    using assms(2) by (simp add: drain_def agree_handleAll)
qed

lemma drain_suspend: "routed w \<Longrightarrow> agree 0 (drain (suspend w)) (drain w)"
proof (cases "arrivals w")
  case Nil
  then show ?thesis by (simp add: suspend_def agree_refl)
next
  case (Cons rs rest)
  assume "routed w"
  let ?u = "handleAll rs (w\<lparr>arrivals := rest\<rparr>)"
  have s: "suspend w = ?u" using Cons \<open>routed w\<close> by (simp add: suspend_def)
  have arr: "arrivals ?u = rest" by simp
  have "agree 0 (w\<lparr>arrivals := rest\<rparr>) (w\<lparr>arrivals := []\<rparr>)"
    by (simp add: agree_def)
  then have "agree 0 ?u (handleAll rs (w\<lparr>arrivals := []\<rparr>))"
    by (rule agree_handleAll)
  moreover have "agree 0 (?u\<lparr>arrivals := []\<rparr>) ?u" by (rule agree_arrivals)
  ultimately have "agree 0 (?u\<lparr>arrivals := []\<rparr>) (handleAll rs (w\<lparr>arrivals := []\<rparr>))"
    using agree_trans [of 0 _ _ 0] by auto
  then have "agree 0 (handleAll (concat rest) (?u\<lparr>arrivals := []\<rparr>))
               (handleAll (concat rest) (handleAll rs (w\<lparr>arrivals := []\<rparr>)))"
    by (rule agree_handleAll)
  then show ?thesis
    using Cons s arr by (simp add: drain_def handleAll_append)
qed


lemma basic_routed: "basic w w' \<Longrightarrow> routed w' = routed w"
  by (auto simp: basic_def unhandledRejection_def)

lemma basic_arrivals_unrouted: "basic w w' \<Longrightarrow> \<not> routed w \<Longrightarrow> arrivals w' = arrivals w"
  by (auto simp: basic_def unhandledRejection_def suspend_def)

lemma basic_agree_unrouted: "basic w w' \<Longrightarrow> \<not> routed w \<Longrightarrow> agree 0 w' w"
  by (auto simp: basic_def unhandledRejection_def suspend_def agree_def emit_def)

lemma basic_drain:
  assumes "basic w w'" and "routed w"
  shows "agree 0 (drain w') (drain w)"
proof -
  consider (suspend) "w' = suspend w"
    | (other) "agree 0 w' w" "arrivals w' = arrivals w"
    using assms(1) by (auto simp: basic_def unhandledRejection_def agree_def emit_def)
  then show ?thesis
  proof cases
    case suspend
    then show ?thesis using assms(2) by (simp add: drain_suspend)
  next
    case other
    then show ?thesis by (rule agree_drain)
  qed
qed

lemma reach_routed: "reach w w' \<Longrightarrow> routed w' = routed w"
  unfolding reach_def
  by (induction rule: rtranclp_induct) (auto dest: basic_routed)

lemma reach_drain: "reach w w' \<Longrightarrow> routed w \<Longrightarrow> agree 0 (drain w') (drain w)"
  unfolding reach_def
proof (induction rule: rtranclp_induct)
  case base
  show ?case by (rule agree_refl)
next
  case (step y z)
  have "routed y" using step.hyps(1) step.prems reach_routed [of w y] by (simp add: reach_def)
  then have "agree 0 (drain z) (drain y)" using step.hyps(2) by (simp add: basic_drain)
  moreover have "agree 0 (drain y) (drain w)" using step by simp
  ultimately show ?case using agree_trans [of 0 "drain z" "drain y" 0 "drain w"] by simp
qed

lemma reach_unrouted:
  "reach w w' \<Longrightarrow> \<not> routed w \<Longrightarrow> agree 0 w' w \<and> arrivals w' = arrivals w"
  unfolding reach_def
proof (induction rule: rtranclp_induct)
  case base
  show ?case by (simp add: agree_refl)
next
  case (step y z)
  have ny: "\<not> routed y" using step.hyps(1) step.prems reach_routed [of w y] by (simp add: reach_def)
  have "agree 0 z y" using step.hyps(2) ny by (rule basic_agree_unrouted)
  moreover have "agree 0 y w" using step by simp
  ultimately have "agree 0 z w" using agree_trans [of 0 z y 0 w] by simp
  moreover have "arrivals z = arrivals w"
    using basic_arrivals_unrouted [OF step.hyps(2) ny] step by simp
  ultimately show ?case by simp
qed

subsection \<open>The loop and the first part stay on their side\<close>

lemma frame_challengeLoop: "frame (challengeLoop cursor ghost wait)"
  unfolding frame_def
proof
  fix w
  show "reach w (snd (challengeLoop cursor ghost wait w))"
  proof (induction cursor ghost wait w rule: challengeLoop.induct)
    case (1 cursor ghost wait w)
    obtain r w1 where b: "loopBody cursor ghost wait w = (r, w1)"
      by (cases "loopBody cursor ghost wait w")
    have r1: "reach w w1" using frame_loopBody b by (rule frameD)
    show ?case
    proof (cases r)
      case (Val wait')
      have "reach w1 (snd (challengeLoop cursor ghost wait' w1))"
        using "1.IH" [OF b [symmetric] Val] .
      then show ?thesis
        using b Val r1 by (simp add: challengeLoop.simps [of cursor ghost wait w] reach_trans)
    next
      case (Throw e)
      then show ?thesis using b r1 by (simp add: challengeLoop.simps [of cursor ghost wait w])
    next
      case Hang
      then show ?thesis using b r1 by (simp add: challengeLoop.simps [of cursor ghost wait w])
    qed
  qed
qed

lemma frame_tryBlock: "frame (tryBlock cursor ghost)"
  unfolding tryBlock_def
  by (intro frame_bnd frame_prims frame_challengeLoop)

lemma reach_challengeTask: "reach w (snd (challengeTask cursor ghost w))"
proof -
  obtain r w1 where t: "tryBlock cursor ghost w = (r, w1)" by (cases "tryBlock cursor ghost w")
  have "reach w w1" using frame_tryBlock t by (rule frameD)
  then show ?thesis using t by (cases r) (simp_all add: challengeTask_def)
qed

lemma frame_ignoring: "frame m \<Longrightarrow> frame (ignoring m)"
  unfolding frame_def ignoring_def
  by (auto split: prod.splits res.splits) (metis snd_conv)+

lemma frame_detached: "frame m \<Longrightarrow> frame (\<lambda>w. (Val (), detached m w))"
  by (simp add: frame_def reach_detached)

lemma frame_launchBrowser: "frame launchBrowser"
  unfolding launchBrowser_def by (intro frame_bnd frame_prims)

lemma frame_triggering: "frame (triggering ghost)"
  unfolding triggering_def
  by (auto intro!: frame_bnd frame_prims frame_launchBrowser frame_ignoring frame_click
      frame_detached)


subsection \<open>A run, seen from the interceptor\<close>

text \<open>
  Once the first part has gone through, the handler's side of the final world is what
  the handler makes of the matching requests, in their order, from the initial world;
  the loop adds one call of \<open>close\<close> when its promise rejects.
\<close>

lemma run_agree:
  assumes "fst (triggering ghost (start sc)) = Val cursor"
  shows "agree (case loopEnd ghost sc of Some (LoopRejected e) \<Rightarrow> 1 | _ \<Rightarrow> 0)
           (getCaptchaToken ghost sc) (handleAll (concat (requests sc)) (start sc))"
proof -
  obtain w1 where t: "triggering ghost (start sc) = (Val cursor, w1)"
    using assms by (cases "triggering ghost (start sc)") simp
  have nr: "\<not> routed (start sc)" by (simp add: start_def)
  have "reach (start sc) w1" using frame_triggering t by (rule frameD)
  then have a1: "agree 0 w1 (start sc)" and arr1: "arrivals w1 = arrivals (start sc)"
    using nr by (simp_all add: reach_unrouted)
  let ?w1 = "w1\<lparr>routed := True\<rparr>"
  have a1': "agree 0 (?w1\<lparr>arrivals := []\<rparr>) (start sc)"
    using a1 by (simp add: agree_def)
  have arr1': "arrivals ?w1 = requests sc" using arr1 by (simp add: start_def)
  have d1: "agree 0 (drain ?w1) (handleAll (concat (requests sc)) (start sc))"
    unfolding drain_def arr1' using a1' by (rule agree_handleAll)
  obtain l0 w2 where ct: "challengeTask cursor ghost ?w1 = (l0, w2)"
    by (cases "challengeTask cursor ghost ?w1")
  have "reach ?w1 w2" using reach_challengeTask [of ?w1 cursor ghost] ct by simp
  then have d2: "agree 0 (drain w2) (drain ?w1)" by (rule reach_drain) simp
  have d12: "agree 0 (drain w2) (handleAll (concat (requests sc)) (start sc))"
    using agree_trans [OF d2 d1] by simp
  show ?thesis
  proof (cases l0)
    case (LoopRejected e)
    let ?w3 = "unhandledRejection e (browserClose w2)"
    have "agree 1 ?w3 w2" and "arrivals ?w3 = arrivals w2"
      by (simp_all add: agree_def unhandledRejection_def browserClose_def emit_def)
    then have "agree 1 (drain ?w3) (drain w2)" by (rule agree_drain)
    then have "agree 1 (drain ?w3) (handleAll (concat (requests sc)) (start sc))"
      using agree_trans [of 1 _ _ 0, OF _ d12] by simp
    then show ?thesis
      using t ct LoopRejected
      by (simp add: getCaptchaToken_def loopEnd_def getCaptchaTokenFrom_def challengePromise_def)
  next
    case LoopResolved
    then show ?thesis
      using t ct d12
      by (simp add: getCaptchaToken_def loopEnd_def getCaptchaTokenFrom_def challengePromise_def)
  next
    case LoopPending
    then show ?thesis
      using t ct d12
      by (simp add: getCaptchaToken_def loopEnd_def getCaptchaTokenFrom_def challengePromise_def)
  qed
qed

lemma split_bearer_abc123: "pop (split ''Bearer abc123'' ''Bearer '') = Some ''abc123''"
  by (simp add: split_def pop_def)

lemma handler_first_match:
  assumes "authorization r = Some ''Bearer abc123''" and "postData r = JsonObject (Some ''xyz'')"
  shows "result (routeHandler r (start sc)) = Fulfilled (Some ''xyz'')"
    and "new_tokens (routeHandler r (start sc)) = [''abc123'']"
    and "routes_aborted (routeHandler r (start sc)) = [r]"
    and "signal_aborted (routeHandler r (start sc))"
    and "closes (routeHandler r (start sc)) = 1"
    and "abort_events (routeHandler r (start sc)) = 1"
  using assms
  by (simp_all add: routeHandler_def Let_def split_bearer_abc123 start_def resolve_def
      onNewToken_def controllerAbort_def browserClose_def routeAbort_def emit_def)

text \<open>The environment's answer to an operation that succeeds, and the request and the
  run of Scenario E: the first part goes through and the request arrives while the
  loop waits for the network.\<close>

definition ok :: "unit reply" where
  "ok = Fulfil ()"

definition requestE :: request where
  "requestE = \<lparr>authorization = Some ''Bearer abc123'', postData = JsonObject (Some ''xyz'')\<rparr>"

definition scenarioE :: script where
  "scenarioE =
     \<lparr>units = [ok, ok, ok, ok, ok, ok, ok, ok, ok, ok], texts = [], buffers = [], boxes = [],
      solutions = [], requests = [[], [], [requestE]]\<rparr>"

section \<open>What the loop does, read off the trace\<close>

text \<open>The events of one kind in the trace.\<close>

definition seen :: "(event \<Rightarrow> bool) \<Rightarrow> world \<Rightarrow> event list" where
  "seen P w = filter P (trace w)"

text \<open>A kind of event that the route handler never produces.\<close>

definition quiet :: "(event \<Rightarrow> bool) \<Rightarrow> bool" where
  "quiet P \<longleftrightarrow>
     \<not> P (Log ''hCaptcha token received. Closing browser'') \<and> (\<forall>r. \<not> P (RouteAbort r)) \<and>
     \<not> P BrowserClose \<and> \<not> P ControllerAbort \<and> (\<forall>t. \<not> P (OnNewToken t))"

lemma seen_emit: "seen P (emit e w) = seen P w @ (if P e then [e] else [])"
  by (simp add: seen_def emit_def)

lemma seen_routeAbort: "quiet P \<Longrightarrow> seen P (routeAbort r w) = seen P w"
  by (simp add: seen_def routeAbort_def emit_def quiet_def)

lemma seen_browserClose: "quiet P \<Longrightarrow> seen P (browserClose w) = seen P w"
  by (simp add: seen_def browserClose_def emit_def quiet_def)

lemma seen_controllerAbort: "quiet P \<Longrightarrow> seen P (controllerAbort w) = seen P w"
  by (simp add: seen_def controllerAbort_def emit_def quiet_def)

lemma seen_onNewToken: "quiet P \<Longrightarrow> seen P (onNewToken t w) = seen P w"
  by (simp add: seen_def onNewToken_def emit_def quiet_def)

lemma seen_resolve: "seen P (resolve v w) = seen P w"
  by (simp add: seen_def resolve_def)

lemma seen_reject: "seen P (reject e w) = seen P w"
  by (simp add: seen_def reject_def)

lemma seen_routeHandler:
  assumes "quiet P"
  shows "seen P (routeHandler r w) = seen P w"
proof -
  have "\<not> P (Log ''hCaptcha token received. Closing browser'')"
    using assms by (simp add: quiet_def)
  then show ?thesis
    using assms
    by (simp add: routeHandler_def Let_def seen_resolve seen_reject seen_onNewToken
        seen_controllerAbort seen_browserClose seen_routeAbort seen_emit
        split: option.splits post_data.splits)
qed

lemma seen_handleAll: "quiet P \<Longrightarrow> seen P (handleAll rs w) = seen P w"
proof (induction rs arbitrary: w)
  case Nil
  show ?case by (simp add: handleAll_def)
next
  case (Cons r rs)
  have "handleAll (r # rs) w = handleAll rs (routeHandler r w)" by (simp add: handleAll_def)
  then show ?case using Cons by (simp add: seen_routeHandler)
qed

lemma seen_arrivals: "seen P (w\<lparr>arrivals := a\<rparr>) = seen P w"
  by (simp add: seen_def)

lemma seen_suspend: "quiet P \<Longrightarrow> seen P (suspend w) = seen P w"
  by (simp add: suspend_def seen_handleAll seen_arrivals split: list.splits)

lemma seen_await_unit:
  "quiet P \<Longrightarrow> seen P (snd (await_unit e w)) = seen P w @ (if P e then [e] else [])"
proof -
  assume q: "quiet P"
  have "seen P (suspend (emit e w)) = seen P w @ (if P e then [e] else [])"
    using q by (simp add: seen_suspend seen_emit)
  moreover have "seen P (snd (await_unit e w)) = seen P (suspend (emit e w))"
    by (simp add: await_unit_def Let_def seen_def split: prod.splits)
  ultimately show ?thesis by simp
qed

lemma seen_await_text:
  "quiet P \<Longrightarrow> seen P (snd (await_text e w)) = seen P w @ (if P e then [e] else [])"
proof -
  assume q: "quiet P"
  have "seen P (suspend (emit e w)) = seen P w @ (if P e then [e] else [])"
    using q by (simp add: seen_suspend seen_emit)
  moreover have "seen P (snd (await_text e w)) = seen P (suspend (emit e w))"
    by (simp add: await_text_def Let_def seen_def split: prod.splits)
  ultimately show ?thesis by simp
qed

lemma seen_await_buffer:
  "quiet P \<Longrightarrow> seen P (snd (await_buffer e w)) = seen P w @ (if P e then [e] else [])"
proof -
  assume q: "quiet P"
  have "seen P (suspend (emit e w)) = seen P w @ (if P e then [e] else [])"
    using q by (simp add: seen_suspend seen_emit)
  moreover have "seen P (snd (await_buffer e w)) = seen P (suspend (emit e w))"
    by (simp add: await_buffer_def Let_def seen_def split: prod.splits)
  ultimately show ?thesis by simp
qed

lemma seen_await_box:
  "quiet P \<Longrightarrow> seen P (snd (await_box e w)) = seen P w @ (if P e then [e] else [])"
proof -
  assume q: "quiet P"
  have "seen P (suspend (emit e w)) = seen P w @ (if P e then [e] else [])"
    using q by (simp add: seen_suspend seen_emit)
  moreover have "seen P (snd (await_box e w)) = seen P (suspend (emit e w))"
    by (simp add: await_box_def Let_def seen_def split: prod.splits)
  ultimately show ?thesis by simp
qed

lemma seen_await_solver:
  "quiet P \<Longrightarrow> seen P (snd (await_solver e w)) = seen P w @ (if P e then [e] else [])"
proof -
  assume q: "quiet P"
  have "seen P (suspend (emit e w)) = seen P w @ (if P e then [e] else [])"
    using q by (simp add: seen_suspend seen_emit)
  moreover have "seen P (snd (await_solver e w)) = seen P (suspend (emit e w))"
    by (simp add: await_solver_def Let_def seen_def split: prod.splits)
  ultimately show ?thesis by simp
qed

lemma seen_sleep:
  "quiet P \<Longrightarrow> seen P (snd (sleep t w)) = seen P w @ (if P (Sleep t) then [Sleep t] else [])"
  by (simp add: sleep_def seen_suspend seen_emit)

lemma seen_log:
  "seen P (snd (log s w)) = seen P w @ (if P (Log s) then [Log s] else [])"
  by (simp add: log_def seen_emit)

subsection \<open>The calls of the solving service\<close>

definition is_coordinates :: "event \<Rightarrow> bool" where
  "is_coordinates e = (case e of Coordinates _ \<Rightarrow> True | _ \<Rightarrow> False)"

lemma quiet_coordinates: "quiet is_coordinates"
  by (simp add: quiet_def is_coordinates_def)

definition calls :: "world \<Rightarrow> nat" where
  "calls w = length (seen is_coordinates w)"

lemma solveAttempt_calls: "calls (snd (solveAttempt drag w)) \<le> calls w + 1"
proof -
  note q = quiet_coordinates
  have l: "\<And>s v. calls (snd (log s v)) = calls v"
    by (simp add: calls_def seen_log is_coordinates_def)
  have b: "\<And>e v. \<not> is_coordinates e \<Longrightarrow> calls (snd (await_buffer e v)) = calls v"
    by (simp add: calls_def seen_await_buffer [OF q])
  have s: "\<And>e v. calls (snd (await_solver e v)) \<le> calls v + 1"
    by (simp add: calls_def seen_await_solver [OF q])
  obtain r0 w0 where 0: "log ''Sending the CAPTCHA to 2Captcha'' w = (r0, w0)"
    by (cases "log ''Sending the CAPTCHA to 2Captcha'' w")
  obtain r1 w1 where 1: "await_buffer Screenshot w0 = (r1, w1)"
    by (cases "await_buffer Screenshot w0")
  obtain r2 w2 where 2: "await_buffer ReadFile w1 = (r2, w2)"
    by (cases "await_buffer ReadFile w1")
  have c0: "calls w0 = calls w"
    using l [of "''Sending the CAPTCHA to 2Captcha''" w] 0 by simp
  have c1: "calls w1 = calls w" using b [of Screenshot w0] 1 c0 by (simp add: is_coordinates_def)
  have c2: "calls w2 = calls w" using b [of ReadFile w1] 2 c1 by (simp add: is_coordinates_def)
  have r0: "r0 = Val ()" using 0 by (simp add: log_def)
  show ?thesis
  proof (cases r1)
    case (Val shot)
    show ?thesis
    proof (cases drag)
      case False
      have "calls (snd (await_solver (Coordinates \<lparr>body = shot, textinstructions = None,
              imginstructions = None\<rparr>) w1)) \<le> calls w1 + 1"
        by (rule s)
      then show ?thesis
        using 0 1 c1 r0 Val False by (simp add: solveAttempt_def bnd_def ret_def)
    next
      case True
      show ?thesis
      proof (cases r2)
        case (Val img)
        have "calls (snd (await_solver (Coordinates \<lparr>body = shot, textinstructions =
                Some ''CLICK on the shapes at their edge or center as shown above - please be precise!'',
                imginstructions = Some img\<rparr>) w2)) \<le> calls w2 + 1"
          by (rule s)
        then show ?thesis
          using 0 1 2 c2 r0 \<open>r1 = Val shot\<close> True Val
          by (simp add: solveAttempt_def bnd_def ret_def)
      next
        case (Throw e)
        then show ?thesis
          using 0 1 2 c2 r0 \<open>r1 = Val shot\<close> True
          by (simp add: solveAttempt_def bnd_def ret_def)
      next
        case Hang
        then show ?thesis
          using 0 1 2 c2 r0 \<open>r1 = Val shot\<close> True
          by (simp add: solveAttempt_def bnd_def ret_def)
      qed
    qed
  next
    case (Throw e)
    then show ?thesis using 0 1 c1 r0 by (simp add: solveAttempt_def bnd_def)
  next
    case Hang
    then show ?thesis using 0 1 c1 r0 by (simp add: solveAttempt_def bnd_def)
  qed
qed


lemma solveLoop_calls: "calls (snd (solveLoop j drag w)) \<le> calls w + (3 - j)"
proof (induction j drag w rule: solveLoop.induct)
  case (1 j drag w)
  obtain r w1 where a: "solveAttempt drag w = (r, w1)" by (cases "solveAttempt drag w")
  have c1: "calls w1 \<le> calls w + 1" using solveAttempt_calls [of drag w] a by simp
  have e: "\<And>s v. calls (emit (Log s) v) = calls v"
    by (simp add: calls_def seen_emit is_coordinates_def)
  show ?case
  proof (cases "j < 3")
    case False
    then show ?thesis by (simp add: solveLoop.simps [of j drag w])
  next
    case True
    show ?thesis
    proof (cases r)
      case (Val c)
      then show ?thesis using True a c1 by (simp add: solveLoop.simps [of j drag w])
    next
      case Hang
      then show ?thesis using True a c1 by (simp add: solveLoop.simps [of j drag w])
    next
      case (Throw err)
      show ?thesis
      proof (cases "j = 2")
        case True
        then show ?thesis using a Throw c1 by (simp add: solveLoop.simps [of 2 drag w] e)
      next
        case False
        let ?w2 = "emit (Log ''Retrying...'') (emit (Log err) w1)"
        have "calls (snd (solveLoop (j + 1) drag ?w2)) \<le> calls ?w2 + (3 - (j + 1))"
          using "1.IH" [OF True a [symmetric] Throw refl False] .
        moreover have "calls ?w2 = calls w1" by (simp add: e)
        ultimately show ?thesis
          using True False a Throw c1 by (simp add: solveLoop.simps [of j drag w])
      qed
    qed
  qed
qed

text \<open>\<open>logger.info(err.message); logger.info('Retrying...')\<close> after a failed attempt
  that is not the last.\<close>

definition retrying :: "string \<Rightarrow> world \<Rightarrow> world" where
  "retrying err w = emit (Log ''Retrying...'') (emit (Log err) w)"

lemma solveLoop_retry:
  "j < 2 \<Longrightarrow> solveLoop j drag w =
     (case solveAttempt drag w of
        (Val c, w') \<Rightarrow> (Val (Some c), w')
      | (Throw err, w') \<Rightarrow> solveLoop (Suc j) drag (retrying err w')
      | (Hang, w') \<Rightarrow> (Hang, w'))"
  by (simp add: solveLoop.simps [of j drag w] retrying_def Let_def split: prod.splits res.splits)

lemma solveLoop_last:
  "solveLoop (Suc (Suc 0)) drag w =
     (case solveAttempt drag w of
        (Val c, w') \<Rightarrow> (Val (Some c), w')
      | (Throw err, w') \<Rightarrow> (Throw err, emit (Log err) w')
      | (Hang, w') \<Rightarrow> (Hang, w'))"
  by (simp add: solveLoop.simps [of "Suc (Suc 0)" drag w] Let_def split: prod.splits res.splits)

text \<open>
  C5. The retry loop makes one attempt; after a failure a second; after a second
  failure a third; the first attempt that succeeds ends the loop with its answer, and
  the error of a third failure is thrown out of the loop. However the loop ends,
  \<open>solver.coordinates\<close> has been called at most three times.
\<close>

theorem solver_three_attempts:
  "solveLoop 0 drag w =
     (case solveAttempt drag w of
        (Val c, w1) \<Rightarrow> (Val (Some c), w1)
      | (Hang, w1) \<Rightarrow> (Hang, w1)
      | (Throw e1, w1) \<Rightarrow>
          (case solveAttempt drag (retrying e1 w1) of
             (Val c, w2) \<Rightarrow> (Val (Some c), w2)
           | (Hang, w2) \<Rightarrow> (Hang, w2)
           | (Throw e2, w2) \<Rightarrow>
               (case solveAttempt drag (retrying e2 w2) of
                  (Val c, w3) \<Rightarrow> (Val (Some c), w3)
                | (Hang, w3) \<Rightarrow> (Hang, w3)
                | (Throw e3, w3) \<Rightarrow> (Throw e3, emit (Log e3) w3)))) \<and>
   calls (snd (solveLoop 0 drag w)) \<le> calls w + 3"
proof
  show "solveLoop 0 drag w =
     (case solveAttempt drag w of
        (Val c, w1) \<Rightarrow> (Val (Some c), w1)
      | (Hang, w1) \<Rightarrow> (Hang, w1)
      | (Throw e1, w1) \<Rightarrow>
          (case solveAttempt drag (retrying e1 w1) of
             (Val c, w2) \<Rightarrow> (Val (Some c), w2)
           | (Hang, w2) \<Rightarrow> (Hang, w2)
           | (Throw e2, w2) \<Rightarrow>
               (case solveAttempt drag (retrying e2 w2) of
                  (Val c, w3) \<Rightarrow> (Val (Some c), w3)
                | (Hang, w3) \<Rightarrow> (Hang, w3)
                | (Throw e3, w3) \<Rightarrow> (Throw e3, emit (Log e3) w3))))"
    by (simp add: solveLoop_retry [of 0] solveLoop_retry [of "Suc 0"] solveLoop_last
        split: prod.splits res.splits)
  show "calls (snd (solveLoop 0 drag w)) \<le> calls w + 3"
    using solveLoop_calls [of 0 drag w] by simp
qed

text \<open>
  C9. An error thrown inside the \<open>try\<close> of the loop whose message contains
  \<open>been closed\<close> or is \<open>AbortError\<close> resolves the promise of the loop, and nothing is
  closed or left unhandled; any other error rejects it: the rejection handler calls
  \<open>close\<close> and throws the error again.
\<close>

theorem loop_error_cancel_or_reject:
  assumes "fst (tryBlock cursor ghost w) = Throw e"
  shows "challengePromise cursor ghost w =
           (if includes_str e ''been closed'' \<or> e = ''AbortError''
            then (LoopResolved, snd (tryBlock cursor ghost w))
            else (LoopRejected e, unhandledRejection e (browserClose (snd (tryBlock cursor ghost w)))))"
  using assms
  by (cases "tryBlock cursor ghost w") (simp add: challengePromise_def challengeTask_def)

definition closedPage :: world where
  "closedPage = start
     \<lparr>units = [ok], texts = [Reject ''locator.innerText: Target page, context or browser has been closed''],
      buffers = [], boxes = [], solutions = [], requests = []\<rparr>"

definition vanished :: world where
  "vanished = start
     \<lparr>units = [ok], texts = [Reject ''locator.innerText: Timeout 30000ms exceeded.''],
      buffers = [], boxes = [], solutions = [], requests = []\<rparr>"

theorem loop_error_cancel_or_reject_witness:
  "fst (tryBlock False False closedPage) =
     Throw ''locator.innerText: Target page, context or browser has been closed'' \<and>
   fst (challengePromise False False closedPage) = LoopResolved \<and>
   fst (tryBlock False False vanished) = Throw ''locator.innerText: Timeout 30000ms exceeded.'' \<and>
   fst (challengePromise False False vanished) =
     LoopRejected ''locator.innerText: Timeout 30000ms exceeded.''"
proof -
  have 1: "fst (tryBlock False False closedPage) =
     Throw ''locator.innerText: Target page, context or browser has been closed''"
    by code_simp
  have 2: "fst (tryBlock False False vanished) =
     Throw ''locator.innerText: Timeout 30000ms exceeded.''"
    by code_simp
  have 3: "includes_str ''locator.innerText: Target page, context or browser has been closed''
             ''been closed''"
    by code_simp
  have 4: "\<not> includes_str ''locator.innerText: Timeout 30000ms exceeded.'' ''been closed''"
    by code_simp
  show ?thesis
    using 1 2 3 4 loop_error_cancel_or_reject [OF 1] loop_error_cancel_or_reject [OF 2]
    by simp
qed

subsection \<open>The steps of a drag\<close>

definition is_drag_step :: "event \<Rightarrow> bool" where
  "is_drag_step e =
     (case e of MouseMove _ _ _ \<Rightarrow> True | MouseDown \<Rightarrow> True | MouseUp \<Rightarrow> True
      | Sleep _ \<Rightarrow> True | _ \<Rightarrow> False)"

definition steps :: "world \<Rightarrow> event list" where
  "steps w = seen is_drag_step w"

lemma quiet_drag_step: "quiet is_drag_step"
  by (simp add: quiet_def is_drag_step_def)

text \<open>
  The drags as the spec describes them: for each pair of points, in the order of the
  solution, move to the start, press, pause 1.1, move to the end in 30 steps, release;
  start and end are the origin of the bounding box plus the offsets of the point.
\<close>

fun dragScript :: "bbox \<Rightarrow> point list \<Rightarrow> event list" where
  "dragScript b (p1 # p2 # rest) =
     MouseMove (box_x b + px p1) (box_y b + py p1) None # MouseDown # Sleep 1.1 #
     MouseMove (box_x b + px p2) (box_y b + py p2) (Some 30) # MouseUp # dragScript b rest"
| "dragScript b _ = []"

text \<open>An operation that adds exactly the steps \<open>es\<close>, and one that adds an initial
  part of \<open>es\<close>, all of it when it returns.\<close>

definition emits :: "event list \<Rightarrow> 'a act \<Rightarrow> bool" where
  "emits es m \<longleftrightarrow> (\<forall>w. steps (snd (m w)) = steps w @ es)"

definition follows :: "event list \<Rightarrow> 'a act \<Rightarrow> bool" where
  "follows es m \<longleftrightarrow>
     (\<forall>w. prefix (steps (snd (m w))) (steps w @ es) \<and>
          ((\<exists>x. fst (m w) = Val x) \<longrightarrow> steps (snd (m w)) = steps w @ es))"

lemma emitsD: "emits es m \<Longrightarrow> m w = (r, w') \<Longrightarrow> steps w' = steps w @ es"
  by (metis emits_def snd_conv)

lemma emits_await_unit: "emits (if is_drag_step e then [e] else []) (await_unit e)"
  by (simp add: emits_def steps_def seen_await_unit [OF quiet_drag_step])

lemma emits_await_box: "emits (if is_drag_step e then [e] else []) (await_box e)"
  by (simp add: emits_def steps_def seen_await_box [OF quiet_drag_step])

lemma emits_sleep: "emits [Sleep t] (sleep t)"
  by (simp add: emits_def steps_def seen_sleep [OF quiet_drag_step] is_drag_step_def)

lemma emits_ret: "emits [] (ret x)"
  by (simp add: emits_def ret_def)

lemma emits_throw: "emits [] (throw e)"
  by (simp add: emits_def throw_def)

lemma emits_log: "emits [] (log s)"
  by (simp add: emits_def steps_def seen_log is_drag_step_def)

lemma emits_badReport: "emits [] (badReport i)"
  by (simp add: emits_def steps_def badReport_def seen_emit is_drag_step_def)

lemma silent_bnd:
  assumes "emits [] m" and "\<And>x. emits [] (f x)"
  shows "emits [] (bnd m f)"
  unfolding emits_def
proof
  fix w
  obtain r w1 where mw: "m w = (r, w1)" by (cases "m w")
  have 1: "steps w1 = steps w" using emitsD [OF assms(1) mw] by simp
  show "steps (snd (bnd m f w)) = steps w @ []"
  proof (cases r)
    case (Val x)
    have "steps (snd (f x w1)) = steps w1" using assms(2) [of x] by (simp add: emits_def)
    then show ?thesis using mw Val 1 by (simp add: bnd_def)
  next
    case (Throw e)
    then show ?thesis using mw 1 by (simp add: bnd_def)
  next
    case Hang
    then show ?thesis using mw 1 by (simp add: bnd_def)
  qed
qed

lemma follows_throw: "follows es (throw e)"
  by (simp add: follows_def throw_def)

lemma follows_ret: "follows [] (ret x)"
  by (simp add: follows_def ret_def)

lemma follows_step:
  assumes "emits [e] m" and "\<And>x. follows es (f x)"
  shows "follows (e # es) (bnd m f)"
  unfolding follows_def
proof
  fix w
  obtain r w1 where mw: "m w = (r, w1)" by (cases "m w")
  have 1: "steps w1 = steps w @ [e]"
    using assms(1) mw by (rule emitsD)
  show "prefix (steps (snd (bnd m f w))) (steps w @ e # es) \<and>
        ((\<exists>x. fst (bnd m f w) = Val x) \<longrightarrow> steps (snd (bnd m f w)) = steps w @ e # es)"
  proof (cases r)
    case (Val x)
    have "prefix (steps (snd (f x w1))) (steps w1 @ es) \<and>
          ((\<exists>y. fst (f x w1) = Val y) \<longrightarrow> steps (snd (f x w1)) = steps w1 @ es)"
      using assms(2) [of x] by (simp add: follows_def)
    then show ?thesis using mw Val 1 by (simp add: bnd_def)
  next
    case (Throw e')
    then show ?thesis using mw 1 by (simp add: bnd_def)
  next
    case Hang
    then show ?thesis using mw 1 by (simp add: bnd_def)
  qed
qed

lemma follows_then_silent:
  assumes "follows es m" and "\<And>x. emits [] (f x)"
  shows "follows es (bnd m f)"
  unfolding follows_def
proof
  fix w
  obtain r w1 where mw: "m w = (r, w1)" by (cases "m w")
  have 1: "prefix (steps w1) (steps w @ es)"
    and 2: "(\<exists>x. r = Val x) \<longrightarrow> steps w1 = steps w @ es"
    using assms(1) mw by (auto simp: follows_def dest: spec [of _ w])
  show "prefix (steps (snd (bnd m f w))) (steps w @ es) \<and>
        ((\<exists>x. fst (bnd m f w) = Val x) \<longrightarrow> steps (snd (bnd m f w)) = steps w @ es)"
  proof (cases r)
    case (Val x)
    have "steps (snd (f x w1)) = steps w1" using assms(2) [of x] by (simp add: emits_def)
    then show ?thesis using mw Val 1 2 by (simp add: bnd_def)
  next
    case (Throw e')
    then show ?thesis using mw 1 by (simp add: bnd_def)
  next
    case Hang
    then show ?thesis using mw 1 by (simp add: bnd_def)
  qed
qed

lemma emits_move: "emits [MouseMove x y s] (await_unit (MouseMove x y s))"
  using emits_await_unit [of "MouseMove x y s"] by (simp add: is_drag_step_def)

lemma emits_down: "emits [MouseDown] (await_unit MouseDown)"
  using emits_await_unit [of MouseDown] by (simp add: is_drag_step_def)

lemma emits_up: "emits [MouseUp] (await_unit MouseUp)"
  using emits_await_unit [of MouseUp] by (simp add: is_drag_step_def)

lemma follows_dragPairs: "even (length ps) \<Longrightarrow> follows (dragScript box ps) (dragPairs box ps)"
proof (induction box ps rule: dragPairs.induct)
  case (1 challengeBox)
  show ?case by (simp add: follows_ret)
next
  case (2 challengeBox data1)
  then show ?case by simp
next
  case (3 challengeBox data1 data2 rest)
  then have "follows (dragScript challengeBox rest) (dragPairs challengeBox rest)" by simp
  then show ?case
    by simp (intro follows_step emits_move emits_down emits_up emits_sleep)
qed


lemma silent_await_unit: "\<not> is_drag_step e \<Longrightarrow> emits [] (await_unit e)"
  using emits_await_unit [of e] by simp

lemma silent_await_box: "emits [] (await_box (BoundingBox l))"
  using emits_await_box [of "BoundingBox l"] by (simp add: is_drag_step_def)

lemma silent_click: "emits [] (click cursor ghost target position)"
  unfolding click_def
  by (auto intro!: silent_bnd silent_await_unit silent_await_box emits_ret emits_throw
      simp: is_drag_step_def split: target.splits option.splits ghost_target.splits)

lemma steps_unhandled: "steps (unhandledRejection e w) = steps w"
  by (simp add: steps_def seen_def unhandledRejection_def)

lemma steps_detached: "emits [] m \<Longrightarrow> steps (detached m w) = steps w"
proof -
  assume "emits [] m"
  then have "steps (snd (m w)) = steps w" by (simp add: emits_def)
  then show ?thesis
    by (cases "m w") (auto simp: detached_def steps_unhandled split: res.splits)
qed

lemma steps_submitClick: "steps (submitClick cursor ghost w) = steps w"
proof -
  obtain r w1 where c: "click cursor ghost (TLocator SubmitButton) None w = (r, w1)"
    by (cases "click cursor ghost (TLocator SubmitButton) None w")
  have 1: "steps w1 = steps w" using emitsD [OF silent_click c] by simp
  have 2: "steps (detached (click cursor ghost (TLocator CreateButton) None) w1) = steps w1"
    by (rule steps_detached [OF silent_click])
  show ?thesis
    using c 1 2 by (cases r) (simp_all add: submitClick_def steps_unhandled)
qed

lemma silent_submit: "emits [] (\<lambda>w. (Val b, submitClick cursor ghost w))"
  by (simp add: emits_def steps_submitClick)

lemma acting_drag_unfold:
  assumes "fst (await_box (BoundingBox ChallengeContainer) w) = Val (Some box)"
  shows "acting cursor ghost wait True (Some c) w =
           (if length (cdata c) mod 2 \<noteq> 0 then
              bnd (log ''Solution does not have even amount of points required for dragging. Requesting new solution...'') (\<lambda>_.
              bnd (badReport (cid c)) (\<lambda>_. ret False))
            else
              bnd (dragPairs box (cdata c)) (\<lambda>_.
              (\<lambda>w. (Val True, submitClick cursor ghost w))))
           (snd (await_box (BoundingBox ChallengeContainer) w))"
  using assms
  by (cases "await_box (BoundingBox ChallengeContainer) w") (simp add: acting_def bnd_def)

text \<open>
  C8. In a pass classified as drag, with the bounding box of the challenge resolved
  and a solution of an even number of points, the mouse steps of the pass are those of
  the drags of the pairs, one pair after the other in the order of the solution, each
  of them: move to the box origin plus the first point, press, pause 1.1, move to the
  box origin plus the second point in 30 steps, release. All of them are performed
  when the pass completes; when an operation fails or never settles, the steps up to
  there.
\<close>

theorem drag_steps_in_order:
  assumes "fst (await_box (BoundingBox ChallengeContainer) w) = Val (Some box)"
    and "even (length (cdata c))"
  shows "prefix (steps (snd (acting cursor ghost wait True (Some c) w)))
           (steps w @ dragScript box (cdata c)) \<and>
         ((\<exists>b. fst (acting cursor ghost wait True (Some c) w) = Val b) \<longrightarrow>
          steps (snd (acting cursor ghost wait True (Some c) w)) =
            steps w @ dragScript box (cdata c))"
proof -
  let ?w1 = "snd (await_box (BoundingBox ChallengeContainer) w)"
  let ?m = "bnd (dragPairs box (cdata c)) (\<lambda>_. (\<lambda>w. (Val True, submitClick cursor ghost w)))"
  have 1: "steps ?w1 = steps w"
    using silent_await_box [of ChallengeContainer] by (simp add: emits_def)
  have "follows (dragScript box (cdata c)) ?m"
    by (intro follows_then_silent follows_dragPairs assms(2) silent_submit)
  then have "prefix (steps (snd (?m ?w1))) (steps ?w1 @ dragScript box (cdata c)) \<and>
      ((\<exists>b. fst (?m ?w1) = Val b) \<longrightarrow> steps (snd (?m ?w1)) = steps ?w1 @ dragScript box (cdata c))"
    by (simp add: follows_def)
  moreover have "acting cursor ghost wait True (Some c) w = ?m ?w1"
    using acting_drag_unfold [OF assms(1)] assms(2) by simp
  ultimately show ?thesis using 1 by simp
qed

definition twoPoints :: captcha where
  "twoPoints = \<lparr>cid = ''77'', cdata = [\<lparr>px = 10, py = 20\<rparr>, \<lparr>px = 110, py = 25\<rparr>]\<rparr>"

definition boxAt :: bbox where
  "boxAt = \<lparr>box_x = 300, box_y = 200, box_width = 400, box_height = 500\<rparr>"

definition dragWorld :: world where
  "dragWorld = start
     \<lparr>units = [ok, ok, ok, ok, ok], texts = [], buffers = [], boxes = [Fulfil (Some boxAt)],
      solutions = [], requests = []\<rparr>"

theorem drag_steps_in_order_witness:
  "fst (await_box (BoundingBox ChallengeContainer) dragWorld) = Val (Some boxAt) \<and>
   even (length (cdata twoPoints)) \<and>
   fst (acting False False True True (Some twoPoints) dragWorld) = Val True \<and>
   steps (snd (acting False False True True (Some twoPoints) dragWorld)) =
     [MouseMove 310 220 None, MouseDown, Sleep 1.1, MouseMove 410 225 (Some 30), MouseUp]"
proof -
  have 1: "fst (await_box (BoundingBox ChallengeContainer) dragWorld) = Val (Some boxAt)"
    by code_simp
  have 2: "even (length (cdata twoPoints))"
    by (simp add: twoPoints_def)
  have 3: "fst (acting False False True True (Some twoPoints) dragWorld) = Val True"
    by code_simp
  have 4: "steps dragWorld = []"
    by (simp add: steps_def seen_def dragWorld_def start_def)
  have 5: "dragScript boxAt (cdata twoPoints) =
      [MouseMove 310 220 None, MouseDown, Sleep 1.1, MouseMove 410 225 (Some 30), MouseUp]"
    by (simp add: twoPoints_def boxAt_def)
  have 6: "\<exists>b. fst (acting False False True True (Some twoPoints) dragWorld) = Val b"
    using 3 by blast
  have "steps (snd (acting False False True True (Some twoPoints) dragWorld)) =
          steps dragWorld @ dragScript boxAt (cdata twoPoints)"
    using drag_steps_in_order [OF 1 2, of False False True] 6 by blast
  then show ?thesis
    using 1 2 3 4 5 by simp
qed

subsection \<open>The trace only grows\<close>

lemma trace_emit: "trace (emit e w) = trace w @ [e]"
  by (simp add: emit_def)

lemma prefix_routeAbort: "prefix (trace w) (trace (routeAbort r w))"
  by (simp add: routeAbort_def emit_def)

lemma prefix_browserClose: "prefix (trace w) (trace (browserClose w))"
  by (simp add: browserClose_def emit_def)

lemma prefix_controllerAbort: "prefix (trace w) (trace (controllerAbort w))"
  by (simp add: controllerAbort_def emit_def)

lemma prefix_onNewToken: "prefix (trace w) (trace (onNewToken t w))"
  by (simp add: onNewToken_def emit_def)

lemma trace_resolve: "trace (resolve v w) = trace w"
  by (simp add: resolve_def)

lemma trace_reject: "trace (reject e w) = trace w"
  by (simp add: reject_def)

lemma prefix_routeHandler: "prefix (trace w) (trace (routeHandler r w))"
proof -
  let ?w1 = "emit (Log ''hCaptcha token received. Closing browser'') w"
  let ?w4 = "controllerAbort (browserClose (routeAbort r ?w1))"
  have "prefix (trace w) (trace ?w1)" by (simp add: trace_emit)
  also have "prefix \<dots> (trace (routeAbort r ?w1))" by (rule prefix_routeAbort)
  also have "prefix \<dots> (trace (browserClose (routeAbort r ?w1)))" by (rule prefix_browserClose)
  also have "prefix \<dots> (trace ?w4)" by (rule prefix_controllerAbort)
  finally have 4: "prefix (trace w) (trace ?w4)" .
  have 5: "\<And>t. prefix (trace w) (trace (onNewToken t ?w4))"
    using 4 prefix_onNewToken prefix_order.trans by blast
  show ?thesis
    using 4 5
    by (simp add: routeHandler_def Let_def trace_resolve trace_reject
        split: option.splits post_data.splits)
qed

lemma prefix_handleAll: "prefix (trace w) (trace (handleAll rs w))"
proof (induction rs arbitrary: w)
  case Nil
  show ?case by (simp add: handleAll_def)
next
  case (Cons r rs)
  have "handleAll (r # rs) w = handleAll rs (routeHandler r w)" by (simp add: handleAll_def)
  moreover have "prefix (trace w) (trace (routeHandler r w))" by (rule prefix_routeHandler)
  moreover have "prefix (trace (routeHandler r w)) (trace (handleAll rs (routeHandler r w)))"
    by (rule Cons.IH)
  ultimately show ?case using prefix_order.trans by simp
qed

lemma prefix_suspend: "prefix (trace w) (trace (suspend w))"
proof (cases "routed w \<and> arrivals w \<noteq> []")
  case False
  then show ?thesis by (auto simp: suspend_def split: list.splits)
next
  case True
  then obtain rs rest where a: "arrivals w = rs # rest" by (cases "arrivals w") auto
  have "prefix (trace (w\<lparr>arrivals := rest\<rparr>)) (trace (handleAll rs (w\<lparr>arrivals := rest\<rparr>)))"
    by (rule prefix_handleAll)
  then show ?thesis using True a by (simp add: suspend_def)
qed

lemma basic_trace: "basic w w' \<Longrightarrow> prefix (trace w) (trace w')"
  using prefix_suspend [of w]
  by (auto simp: basic_def unhandledRejection_def trace_emit)

lemma reach_trace: "reach w w' \<Longrightarrow> prefix (trace w) (trace w')"
  unfolding reach_def
  by (induction rule: rtranclp_induct) (auto dest: basic_trace intro: prefix_order.trans)


subsection \<open>Odd solutions\<close>

definition is_badReport :: "event \<Rightarrow> bool" where
  "is_badReport e = (case e of BadReport _ \<Rightarrow> True | _ \<Rightarrow> False)"

definition reports :: "world \<Rightarrow> event list" where
  "reports w = seen is_badReport w"

lemma quiet_badReport: "quiet is_badReport"
  by (simp add: quiet_def is_badReport_def)

lemma silent_acting_odd:
  assumes "odd (length (cdata c))"
  shows "emits [] (acting cursor ghost wait True (Some c))"
proof -
  have m: "length (cdata c) mod 2 \<noteq> 0" using assms by presburger
  show ?thesis
    unfolding acting_def
    using m
    by (auto intro!: silent_bnd silent_await_box emits_throw emits_log emits_badReport emits_ret
        split: option.splits)
qed

text \<open>A pass that starts with \<open>wait = false\<close> starts by reading the prompt text.\<close>

lemma loopBody_no_wait:
  "prefix (trace v @ [InnerText]) (trace (snd (loopBody cursor ghost False v)))"
proof -
  let ?K = "\<lambda>text. let drag = includes_str (toLowerCase text) ''drag'' in
     bnd (solveLoop 0 drag) (\<lambda>captcha. acting cursor ghost False drag captcha)"
  have fK: "\<And>t. frame (?K t)"
    by (auto simp: Let_def intro!: frame_bnd frame_solveLoop frame_acting)
  have eq: "loopBody cursor ghost False v = bnd (await_text InnerText) ?K v"
    by (simp add: loopBody_def bnd_def ret_def)
  obtain r v1 where a: "await_text InnerText v = (r, v1)" by (cases "await_text InnerText v")
  have "trace v1 = trace (suspend (emit InnerText v))"
    using a by (auto simp: await_text_def Let_def split: prod.splits)
  moreover have "prefix (trace (emit InnerText v)) (trace (suspend (emit InnerText v)))"
    by (rule prefix_suspend)
  ultimately have 1: "prefix (trace v @ [InnerText]) (trace v1)"
    by (simp add: trace_emit)
  show ?thesis
  proof (cases r)
    case (Val t)
    have "reach v1 (snd (?K t v1))" using fK [of t] by (simp add: frame_def)
    then have "prefix (trace v1) (trace (snd (?K t v1)))" by (rule reach_trace)
    then have "prefix (trace v @ [InnerText]) (trace (snd (?K t v1)))"
      using 1 prefix_order.trans by blast
    then show ?thesis using eq a Val by (simp add: bnd_def)
  next
    case (Throw e)
    then show ?thesis using eq a 1 by (simp add: bnd_def)
  next
    case Hang
    then show ?thesis using eq a 1 by (simp add: bnd_def)
  qed
qed

lemma challengeLoop_no_wait:
  "prefix (trace v @ [InnerText]) (trace (snd (challengeLoop cursor ghost False v)))"
proof -
  obtain r v1 where b: "loopBody cursor ghost False v = (r, v1)"
    by (cases "loopBody cursor ghost False v")
  have 1: "prefix (trace v @ [InnerText]) (trace v1)"
    using loopBody_no_wait [of v cursor ghost] b by simp
  show ?thesis
  proof (cases r)
    case (Val wait')
    have "reach v1 (snd (challengeLoop cursor ghost wait' v1))"
      using frame_challengeLoop [of cursor ghost wait'] by (simp add: frame_def)
    then have "prefix (trace v1) (trace (snd (challengeLoop cursor ghost wait' v1)))"
      by (rule reach_trace)
    then have "prefix (trace v @ [InnerText]) (trace (snd (challengeLoop cursor ghost wait' v1)))"
      using 1 prefix_order.trans by blast
    then show ?thesis
      using b Val by (simp add: challengeLoop.simps [of cursor ghost False v])
  next
    case (Throw e)
    then show ?thesis using b 1 by (simp add: challengeLoop.simps [of cursor ghost False v])
  next
    case Hang
    then show ?thesis using b 1 by (simp add: challengeLoop.simps [of cursor ghost False v])
  qed
qed

text \<open>The pass up to the solution: the wait, the detection and the retry loop have gone
  through, the prompt asks for a drag and the service has answered with \<open>c\<close>.\<close>

lemma loopBody_drag_solved:
  assumes "(if wait then waitForRequests else ret ()) u = (Val (), ua)"
    and "await_text InnerText ua = (Val prompt, ub)"
    and "includes_str (toLowerCase prompt) ''drag''"
    and "solveLoop 0 True ub = (Val (Some c), w)"
  shows "loopBody cursor ghost wait u = acting cursor ghost wait True (Some c) w"
proof -
  have "loopBody cursor ghost wait u =
          bnd (await_text InnerText) (\<lambda>text.
            let drag = includes_str (toLowerCase text) ''drag'' in
            bnd (solveLoop 0 drag) (\<lambda>captcha. acting cursor ghost wait drag captcha)) ua"
    using assms(1) by (simp add: loopBody_def bnd_def)
  also have "\<dots> = bnd (solveLoop 0 True) (\<lambda>captcha. acting cursor ghost wait True captcha) ub"
    using assms(2,3) by (simp add: bnd_def)
  also have "\<dots> = acting cursor ghost wait True (Some c) w"
    using assms(4) by (simp add: bnd_def)
  finally show ?thesis .
qed

text \<open>
  C4, as amended. When the solution of a pass classified as drag has an odd number of
  points, no drag step is performed with it. If moreover the bounding box of the
  challenge resolves, \<open>badReport\<close> is called once, with the identifier of that solution,
  and this part of the pass returns \<open>wait = false\<close>. In the loop: a pass that has come
  to such a solution through the wait, the detection and the retry loop ends there,
  the loop goes on with a pass with \<open>wait = false\<close>, and the next thing the loop does
  after the report is to read the prompt text: no network wait comes before the next
  request for a solution.
\<close>

theorem odd_solution_reported:
  assumes "odd (length (cdata c))"
  shows "steps (snd (acting cursor ghost wait True (Some c) w)) = steps w \<and>
         (fst (await_box (BoundingBox ChallengeContainer) w) = Val (Some box) \<longrightarrow>
            fst (acting cursor ghost wait True (Some c) w) = Val False \<and>
            reports (snd (acting cursor ghost wait True (Some c) w)) =
              reports w @ [BadReport (cid c)] \<and>
            prefix (trace (snd (acting cursor ghost wait True (Some c) w)) @ [InnerText])
              (trace (snd (loopBody cursor ghost False
                             (snd (acting cursor ghost wait True (Some c) w))))) \<and>
            ((if wait then waitForRequests else ret ()) u = (Val (), ua) \<and>
             await_text InnerText ua = (Val prompt, ub) \<and>
             includes_str (toLowerCase prompt) ''drag'' \<and>
             solveLoop 0 True ub = (Val (Some c), w) \<longrightarrow>
               loopBody cursor ghost wait u =
                 (Val False, snd (acting cursor ghost wait True (Some c) w)) \<and>
               challengeLoop cursor ghost wait u =
                 challengeLoop cursor ghost False
                   (snd (acting cursor ghost wait True (Some c) w)) \<and>
               prefix (trace (snd (acting cursor ghost wait True (Some c) w)) @ [InnerText])
                 (trace (snd (challengeLoop cursor ghost wait u)))))"
proof (intro conjI impI)
  show "steps (snd (acting cursor ghost wait True (Some c) w)) = steps w"
    using silent_acting_odd [OF assms, of cursor ghost wait] by (simp add: emits_def)
next
  assume b: "fst (await_box (BoundingBox ChallengeContainer) w) = Val (Some box)"
  let ?w1 = "snd (await_box (BoundingBox ChallengeContainer) w)"
  let ?w2 = "emit (BadReport (cid c))
    (emit (Log ''Solution does not have even amount of points required for dragging. Requesting new solution...'') ?w1)"
  have m: "length (cdata c) mod 2 \<noteq> 0" using assms by presburger
  have eq: "acting cursor ghost wait True (Some c) w = (Val False, ?w2)"
    using acting_drag_unfold [OF b, of cursor ghost wait c] m
    by (simp add: bnd_def log_def badReport_def ret_def)
  show f: "fst (acting cursor ghost wait True (Some c) w) = Val False"
    using eq by simp
  have "reports ?w1 = reports w"
    by (simp add: reports_def seen_await_box [OF quiet_badReport] is_badReport_def)
  then show "reports (snd (acting cursor ghost wait True (Some c) w)) =
      reports w @ [BadReport (cid c)]"
    using eq by (simp add: reports_def seen_emit is_badReport_def)
  show "prefix (trace (snd (acting cursor ghost wait True (Some c) w)) @ [InnerText])
      (trace (snd (loopBody cursor ghost False (snd (acting cursor ghost wait True (Some c) w)))))"
    by (rule loopBody_no_wait)
  assume p: "(if wait then waitForRequests else ret ()) u = (Val (), ua) \<and>
             await_text InnerText ua = (Val prompt, ub) \<and>
             includes_str (toLowerCase prompt) ''drag'' \<and>
             solveLoop 0 True ub = (Val (Some c), w)"
  have "loopBody cursor ghost wait u = acting cursor ghost wait True (Some c) w"
    using p by (intro loopBody_drag_solved [of wait u ua prompt ub c w]) simp_all
  then show body: "loopBody cursor ghost wait u =
      (Val False, snd (acting cursor ghost wait True (Some c) w))"
    using f by (simp add: prod_eq_iff)
  then show loop: "challengeLoop cursor ghost wait u =
      challengeLoop cursor ghost False (snd (acting cursor ghost wait True (Some c) w))"
    by (simp add: challengeLoop.simps [of cursor ghost wait u])
  show "prefix (trace (snd (acting cursor ghost wait True (Some c) w)) @ [InnerText])
      (trace (snd (challengeLoop cursor ghost wait u)))"
    unfolding loop by (rule challengeLoop_no_wait)
qed

definition threePoints :: captcha where
  "threePoints =
     \<lparr>cid = ''42'', cdata = [\<lparr>px = 10, py = 20\<rparr>, \<lparr>px = 110, py = 25\<rparr>, \<lparr>px = 60, py = 70\<rparr>]\<rparr>"

text \<open>A pass with an odd solution and a bounding box, and the worlds it goes through:
  after the wait, after the detection, after the retry loop.\<close>

definition oddPass :: world where
  "oddPass = start
     \<lparr>units = [ok], texts = [Fulfil ''Please drag the puzzle piece''],
      buffers = [Fulfil ''shot'', Fulfil ''img''], boxes = [Fulfil (Some boxAt)],
      solutions = [Fulfil threePoints], requests = []\<rparr>"

definition oddPassWaited :: world where
  "oddPassWaited = snd (waitForRequests oddPass)"

definition oddPassDetected :: world where
  "oddPassDetected = snd (await_text InnerText oddPassWaited)"

definition oddPassSolved :: world where
  "oddPassSolved = snd (solveLoop 0 True oddPassDetected)"

theorem odd_solution_reported_witness:
  "odd (length (cdata threePoints)) \<and>
   fst (await_box (BoundingBox ChallengeContainer) oddPassSolved) = Val (Some boxAt) \<and>
   waitForRequests oddPass = (Val (), oddPassWaited) \<and>
   await_text InnerText oddPassWaited = (Val ''Please drag the puzzle piece'', oddPassDetected) \<and>
   includes_str (toLowerCase ''Please drag the puzzle piece'') ''drag'' \<and>
   solveLoop 0 True oddPassDetected = (Val (Some threePoints), oddPassSolved) \<and>
   fst (loopBody False False True oddPass) = Val False \<and>
   steps (snd (loopBody False False True oddPass)) = [] \<and>
   reports (snd (loopBody False False True oddPass)) = [BadReport ''42''] \<and>
   challengeLoop False False True oddPass =
     challengeLoop False False False (snd (loopBody False False True oddPass)) \<and>
   prefix (trace (snd (loopBody False False True oddPass)) @ [InnerText])
     (trace (snd (challengeLoop False False True oddPass)))"
proof -
  have 1: "odd (length (cdata threePoints))"
    by (simp add: threePoints_def)
  have 2: "fst (await_box (BoundingBox ChallengeContainer) oddPassSolved) = Val (Some boxAt)"
    by code_simp
  have "fst (waitForRequests oddPass) = Val ()"
    by code_simp
  then have 3: "(if True then waitForRequests else ret ()) oddPass = (Val (), oddPassWaited)"
    by (simp add: oddPassWaited_def prod_eq_iff)
  have "fst (await_text InnerText oddPassWaited) = Val ''Please drag the puzzle piece''"
    by code_simp
  then have 4: "await_text InnerText oddPassWaited =
      (Val ''Please drag the puzzle piece'', oddPassDetected)"
    by (simp add: oddPassDetected_def prod_eq_iff)
  have 5: "includes_str (toLowerCase ''Please drag the puzzle piece'') ''drag''"
    by code_simp
  have "fst (solveLoop 0 True oddPassDetected) = Val (Some threePoints)"
    by code_simp
  then have 6: "solveLoop 0 True oddPassDetected = (Val (Some threePoints), oddPassSolved)"
    by (simp add: oddPassSolved_def prod_eq_iff)
  have 7: "steps oddPassSolved = []" and 8: "reports oddPassSolved = []"
    by code_simp+
  have 9: "cid threePoints = ''42''"
    by (simp add: threePoints_def)
  have w3: "waitForRequests oddPass = (Val (), oddPassWaited)"
    using 3 by simp
  note t = odd_solution_reported [OF 1, of False False True oddPassSolved boxAt oddPass
      oddPassWaited "''Please drag the puzzle piece''" oddPassDetected]
  have s: "steps (snd (acting False False True True (Some threePoints) oddPassSolved)) = []"
    using t 7 by simp
  have r: "reports (snd (acting False False True True (Some threePoints) oddPassSolved)) =
      [BadReport ''42'']"
    using t 2 8 9 by simp
  have l: "loopBody False False True oddPass =
        (Val False, snd (acting False False True True (Some threePoints) oddPassSolved)) \<and>
      challengeLoop False False True oddPass =
        challengeLoop False False False
          (snd (acting False False True True (Some threePoints) oddPassSolved)) \<and>
      prefix (trace (snd (acting False False True True (Some threePoints) oddPassSolved)) @ [InnerText])
        (trace (snd (challengeLoop False False True oddPass)))"
    using t 2 3 4 5 6 by blast
  have b: "snd (acting False False True True (Some threePoints) oddPassSolved) =
      snd (loopBody False False True oddPass)"
    and f: "fst (loopBody False False True oddPass) = Val False"
    using l by simp_all
  have s': "steps (snd (loopBody False False True oddPass)) = []"
    and r': "reports (snd (loopBody False False True oddPass)) = [BadReport ''42'']"
    and l': "challengeLoop False False True oddPass =
       challengeLoop False False False (snd (loopBody False False True oddPass))"
    and p': "prefix (trace (snd (loopBody False False True oddPass)) @ [InnerText])
       (trace (snd (challengeLoop False False True oddPass)))"
    using s r l unfolding b by blast+
  show ?thesis
    using 1 2 w3 4 5 6 f s' r' l' p' by blast
qed

text \<open>
  C4 as the spec states it fails where the bounding box is \<open>null\<close>: the pass is
  classified as drag, the service answers with three points, and the pass ends with
  the error of the missing box before the parity of the solution is looked at, so
  nothing is reported.
\<close>

definition nullBoxPass :: world where
  "nullBoxPass = start
     \<lparr>units = [ok], texts = [Fulfil ''Please drag the puzzle piece''],
      buffers = [Fulfil ''shot'', Fulfil ''img''], boxes = [Fulfil None],
      solutions = [Fulfil threePoints], requests = []\<rparr>"

theorem odd_solution_null_box_counterexample:
  "fst (loopBody False False True nullBoxPass) = Throw ''.challenge-container boundingBox is null!'' \<and>
   seen is_coordinates (snd (loopBody False False True nullBoxPass)) =
     [Coordinates \<lparr>body = ''shot'',
        textinstructions = Some ''CLICK on the shapes at their edge or center as shown above - please be precise!'',
        imginstructions = Some ''img''\<rparr>] \<and>
   reports (snd (loopBody False False True nullBoxPass)) = []"
  by code_simp

section \<open>Whole runs\<close>

subsection \<open>The calls of close\<close>

lemma closes_routeHandler: "closes (routeHandler r w) = closes w + 1"
proof -
  have e: "\<And>x v. closes (emit x v) = closes v" by (simp add: emit_def)
  have a: "\<And>v. closes (routeAbort r v) = closes v" by (simp add: routeAbort_def emit_def)
  have b: "\<And>v. closes (browserClose v) = closes v + 1" by (simp add: browserClose_def emit_def)
  have c: "\<And>v. closes (controllerAbort v) = closes v" by (simp add: controllerAbort_def emit_def)
  have t: "\<And>x v. closes (onNewToken x v) = closes v" by (simp add: onNewToken_def emit_def)
  have s: "\<And>x v. closes (resolve x v) = closes v" by (simp add: resolve_def)
  have j: "\<And>x v. closes (reject x v) = closes v" by (simp add: reject_def)
  show ?thesis
    by (simp add: routeHandler_def Let_def e a b c t s j split: option.splits post_data.splits)
qed

lemma closes_handleAll: "closes (handleAll rs w) = closes w + length rs"
proof (induction rs arbitrary: w)
  case Nil
  show ?case by (simp add: handleAll_def)
next
  case (Cons r rs)
  have "handleAll (r # rs) w = handleAll rs (routeHandler r w)" by (simp add: handleAll_def)
  then show ?case using Cons [of "routeHandler r w"] by (simp add: closes_routeHandler)
qed

text \<open>
  C3, as amended. In a run whose first part goes through, \<open>close\<close> is called once for
  each request that matches the route and once more when the promise of the loop
  rejects; the loop calls no \<open>close\<close> when it ends as a cancellation or does not end.
\<close>

theorem close_calls_counted:
  assumes "fst (triggering ghost (start sc)) = Val cursor"
  shows "closes (getCaptchaToken ghost sc) =
           length (concat (requests sc)) +
           (case loopEnd ghost sc of Some (LoopRejected e) \<Rightarrow> 1 | _ \<Rightarrow> 0)"
proof -
  have "closes (handleAll (concat (requests sc)) (start sc)) = length (concat (requests sc))"
    by (simp add: closes_handleAll start_def)
  then show ?thesis
    using run_agree [OF assms] by (simp add: agree_def)
qed

theorem close_calls_counted_witness:
  "fst (triggering False (start scenarioE)) = Val False \<and>
   loopEnd False scenarioE = Some LoopResolved \<and>
   closes (getCaptchaToken False scenarioE) = 1"
proof -
  have 1: "fst (triggering False (start scenarioE)) = Val False"
    by code_simp
  have 2: "loopEnd False scenarioE = Some LoopResolved"
    by code_simp
  have 3: "length (concat (requests scenarioE)) = 1"
    by (simp add: scenarioE_def)
  show ?thesis
    using 1 2 3 close_calls_counted [OF 1] by simp
qed

text \<open>
  C3 as the spec states it fails on a run that ends as a cancellation without a match:
  the page is closed from outside while the loop reads the prompt text, the loop
  resolves, and \<open>close\<close> is never called.
\<close>

definition closedFromOutside :: script where
  "closedFromOutside =
     \<lparr>units = [ok, ok, ok, ok, ok, ok, ok, ok, ok, ok, ok],
      texts = [Reject ''locator.innerText: Target page, context or browser has been closed''],
      buffers = [], boxes = [], solutions = [], requests = []\<rparr>"

theorem close_never_called_counterexample:
  "loopEnd False closedFromOutside = Some LoopResolved \<and>
   closes (getCaptchaToken False closedFromOutside) = 0"
  by code_simp

subsection \<open>A request without the authorization header\<close>

definition headerless :: request where
  "headerless = \<lparr>authorization = None, postData = JsonObject (Some ''xyz'')\<rparr>"

definition headerlessRun :: script where
  "headerlessRun =
     \<lparr>units = [ok, ok, ok, ok, ok, ok, ok, ok, ok, ok], texts = [], buffers = [], boxes = [],
      solutions = [], requests = [[], [], [headerless]]\<rparr>"

text \<open>
  C10. The code reads \<open>authorization.split\<close> before it tests the credential: on a
  matched request without the header the handler's \<open>catch\<close> rejects the returned
  promise with the TypeError, although the body holds the token. The request is
  aborted, the browser closed and the callback not called.
\<close>

theorem headerless_request_rejects:
  "result (getCaptchaToken False headerlessRun) =
     Rejected ''Cannot read properties of undefined (reading 'split')'' \<and>
   new_tokens (getCaptchaToken False headerlessRun) = [] \<and>
   routes_aborted (getCaptchaToken False headerlessRun) = [headerless] \<and>
   closes (getCaptchaToken False headerlessRun) = 1"
  by code_simp

subsection \<open>A fatal error of the loop\<close>

definition fatalRun :: script where
  "fatalRun =
     \<lparr>units = [ok, ok, ok, ok, ok, ok, ok, ok, ok, ok, ok],
      texts = [Fulfil ''Please drag the puzzle piece''],
      buffers = [Fulfil ''shot'', Fulfil ''img''], boxes = [Fulfil None],
      solutions = [Fulfil twoPoints], requests = []\<rparr>"

text \<open>
  C2. A fatal error of the loop rejects the promise of the loop; its rejection handler
  closes the browser and throws the error again, into a promise that nobody holds.
  The promise returned to the caller is settled by the route handler only, so it stays
  pending.
\<close>

theorem fatal_error_leaves_caller_pending:
  "loopEnd False fatalRun = Some (LoopRejected ''.challenge-container boundingBox is null!'') \<and>
   result (getCaptchaToken False fatalRun) = Pending \<and>
   unhandled (getCaptchaToken False fatalRun) = [''.challenge-container boundingBox is null!''] \<and>
   closes (getCaptchaToken False fatalRun) = 1"
  by code_simp

subsection \<open>A submit click that fails\<close>

definition onePoint :: captcha where
  "onePoint = \<lparr>cid = ''7'', cdata = [\<lparr>px = 10, py = 20\<rparr>]\<rparr>"

definition submitFails :: script where
  "submitFails =
     \<lparr>units = [ok, ok, ok, ok, ok, ok, ok, ok, ok, ok, ok, ok,
               Reject ''locator.click: Timeout 30000ms exceeded.'', ok],
      texts = [Fulfil ''Select all images with cats''],
      buffers = [Fulfil ''shot''], boxes = [], solutions = [Fulfil onePoint], requests = []\<rparr>"

text \<open>
  C6. The submit click is not awaited. When it fails with a message without
  \<open>viewport\<close>, the handler throws the error again into a promise that nobody holds:
  the loop goes on with its next pass (the network wait, the prompt text), nothing is
  closed and the promise of the loop is not rejected.
\<close>

theorem submit_error_does_not_stop_loop:
  "drop 13 (trace (getCaptchaToken False submitFails)) =
     [Import ''fs/promises'', Import ''path'', WaitForRequests, InnerText,
      Log ''Sending the CAPTCHA to 2Captcha'', Screenshot,
      Coordinates \<lparr>body = ''shot'', textinstructions = None, imginstructions = None\<rparr>,
      LocatorClick ChallengeContainer (Some (10, 20)), LocatorClick SubmitButton None,
      WaitForRequests, InnerText] \<and>
   loopEnd False submitFails = Some LoopPending \<and>
   unhandled (getCaptchaToken False submitFails) = [''locator.click: Timeout 30000ms exceeded.''] \<and>
   closes (getCaptchaToken False submitFails) = 0"
  by code_simp

subsection \<open>The first request that matches\<close>

text \<open>The credential that the handler forwards for a request: the last piece of the
  header after \<open>Bearer \<close>, when the header is there and the piece is not empty.\<close>

definition forwarded :: "request \<Rightarrow> string list" where
  "forwarded r =
     (case authorization r of
        None \<Rightarrow> []
      | Some h \<Rightarrow>
          (case pop (split h ''Bearer '') of
             None \<Rightarrow> []
           | Some t \<Rightarrow> if t \<noteq> [] then [t] else []))"

lemma handler_steps_result:
  "result (emit x v) = result v" "result (routeAbort r v) = result v"
  "result (browserClose v) = result v" "result (controllerAbort v) = result v"
  "result (onNewToken t v) = result v"
  "result (resolve y v) = (if result v = Pending then Fulfilled y else result v)"
  "result (reject z v) = (if result v = Pending then Rejected z else result v)"
  by (simp_all add: emit_def routeAbort_def browserClose_def controllerAbort_def
      onNewToken_def resolve_def reject_def)

lemma handler_steps_signal:
  "signal_aborted (emit x v) = signal_aborted v" "signal_aborted (routeAbort r v) = signal_aborted v"
  "signal_aborted (browserClose v) = signal_aborted v" "signal_aborted (controllerAbort v)"
  "signal_aborted (onNewToken t v) = signal_aborted v"
  "signal_aborted (resolve y v) = signal_aborted v" "signal_aborted (reject z v) = signal_aborted v"
  by (simp_all add: emit_def routeAbort_def browserClose_def controllerAbort_def
      onNewToken_def resolve_def reject_def)

lemma handler_steps_abort_events:
  "abort_events (emit x v) = abort_events v" "abort_events (routeAbort r v) = abort_events v"
  "abort_events (browserClose v) = abort_events v"
  "abort_events (controllerAbort v) = (if signal_aborted v then abort_events v else abort_events v + 1)"
  "abort_events (onNewToken t v) = abort_events v"
  "abort_events (resolve y v) = abort_events v" "abort_events (reject z v) = abort_events v"
  by (simp_all add: emit_def routeAbort_def browserClose_def controllerAbort_def
      onNewToken_def resolve_def reject_def)

lemma handler_steps_new_tokens:
  "new_tokens (emit x v) = new_tokens v" "new_tokens (routeAbort r v) = new_tokens v"
  "new_tokens (browserClose v) = new_tokens v" "new_tokens (controllerAbort v) = new_tokens v"
  "new_tokens (onNewToken t v) = new_tokens v @ [t]"
  "new_tokens (resolve y v) = new_tokens v" "new_tokens (reject z v) = new_tokens v"
  by (simp_all add: emit_def routeAbort_def browserClose_def controllerAbort_def
      onNewToken_def resolve_def reject_def)

lemma handler_steps_routes:
  "routes_aborted (emit x v) = routes_aborted v"
  "routes_aborted (routeAbort r v) = routes_aborted v @ [r]"
  "routes_aborted (browserClose v) = routes_aborted v"
  "routes_aborted (controllerAbort v) = routes_aborted v"
  "routes_aborted (onNewToken t v) = routes_aborted v"
  "routes_aborted (resolve y v) = routes_aborted v" "routes_aborted (reject z v) = routes_aborted v"
  by (simp_all add: emit_def routeAbort_def browserClose_def controllerAbort_def
      onNewToken_def resolve_def reject_def)

text \<open>What the handler does for a request that comes after the promise is settled and
  the signal raised.\<close>

lemma later_match:
  assumes "result w \<noteq> Pending" and "signal_aborted w"
  shows "result (routeHandler r w) = result w"
    and "signal_aborted (routeHandler r w)"
    and "abort_events (routeHandler r w) = abort_events w"
    and "new_tokens (routeHandler r w) = new_tokens w @ forwarded r"
    and "routes_aborted (routeHandler r w) = routes_aborted w @ [r]"
proof -
  show "result (routeHandler r w) = result w"
    using assms(1)
    by (simp add: routeHandler_def Let_def handler_steps_result
        split: option.splits post_data.splits)
  show "signal_aborted (routeHandler r w)"
    by (simp add: routeHandler_def Let_def handler_steps_signal
        split: option.splits post_data.splits)
  show "abort_events (routeHandler r w) = abort_events w"
    using assms(2)
    by (simp add: routeHandler_def Let_def handler_steps_abort_events handler_steps_signal
        split: option.splits post_data.splits)
  show "new_tokens (routeHandler r w) = new_tokens w @ forwarded r"
    by (simp add: routeHandler_def Let_def handler_steps_new_tokens forwarded_def
        split: option.splits post_data.splits)
  show "routes_aborted (routeHandler r w) = routes_aborted w @ [r]"
    by (simp add: routeHandler_def Let_def handler_steps_routes
        split: option.splits post_data.splits)
qed

lemma later_matches:
  assumes "result w \<noteq> Pending" and "signal_aborted w"
  shows "result (handleAll rs w) = result w \<and> signal_aborted (handleAll rs w) \<and>
         abort_events (handleAll rs w) = abort_events w \<and>
         new_tokens (handleAll rs w) = new_tokens w @ concat (map forwarded rs) \<and>
         routes_aborted (handleAll rs w) = routes_aborted w @ rs"
  using assms
proof (induction rs arbitrary: w)
  case Nil
  then show ?case by (simp add: handleAll_def)
next
  case (Cons r rs)
  have h: "handleAll (r # rs) w = handleAll rs (routeHandler r w)" by (simp add: handleAll_def)
  have 1: "result (routeHandler r w) \<noteq> Pending" and 2: "signal_aborted (routeHandler r w)"
    using later_match [OF Cons.prems, of r] Cons.prems by simp_all
  show ?case
    using Cons.IH [OF 1 2] later_match [OF Cons.prems, of r] h by simp
qed

text \<open>
  C1, as amended (Scenario E). In a run whose first part goes through and whose first
  request matching the route has the header \<open>Authorization: Bearer abc123\<close> and the body
  \<open>{"token": "xyz"}\<close>: the returned promise is fulfilled with \<open>xyz\<close>; the first call of
  \<open>onNewToken\<close> is the one for this request, with \<open>abc123\<close>, and the calls after it are
  those for the requests that match later, so that the callback is called exactly once
  when no other request matches; every request that matches is aborted; the signal is
  raised, once; \<open>close\<close> is called.
\<close>

theorem first_match_interception:
  assumes "fst (triggering ghost (start sc)) = Val cursor"
    and "concat (requests sc) = r # rest"
    and "authorization r = Some ''Bearer abc123''"
    and "postData r = JsonObject (Some ''xyz'')"
  shows "result (getCaptchaToken ghost sc) = Fulfilled (Some ''xyz'') \<and>
         new_tokens (getCaptchaToken ghost sc) = ''abc123'' # concat (map forwarded rest) \<and>
         (rest = [] \<longrightarrow> new_tokens (getCaptchaToken ghost sc) = [''abc123'']) \<and>
         routes_aborted (getCaptchaToken ghost sc) = r # rest \<and>
         signal_aborted (getCaptchaToken ghost sc) \<and>
         abort_events (getCaptchaToken ghost sc) = 1 \<and>
         1 \<le> closes (getCaptchaToken ghost sc)"
proof -
  let ?w1 = "routeHandler r (start sc)"
  note first = handler_first_match [OF assms(3,4), of sc]
  have 1: "result ?w1 \<noteq> Pending" and 2: "signal_aborted ?w1"
    using first by simp_all
  have h: "handleAll (concat (requests sc)) (start sc) = handleAll rest ?w1"
    using assms(2) by (simp add: handleAll_def)
  have c: "closes (handleAll (concat (requests sc)) (start sc)) = Suc (length rest)"
    using assms(2) by (simp add: closes_handleAll start_def)
  have "agree (case loopEnd ghost sc of Some (LoopRejected e) \<Rightarrow> 1 | _ \<Rightarrow> 0)
          (getCaptchaToken ghost sc) (handleAll rest ?w1)"
    using run_agree [OF assms(1)] h by simp
  then show ?thesis
    using later_matches [OF 1 2, of rest] first c h by (simp add: agree_def)
qed

theorem first_match_interception_witness:
  "fst (triggering False (start scenarioE)) = Val False \<and>
   concat (requests scenarioE) = [requestE] \<and>
   result (getCaptchaToken False scenarioE) = Fulfilled (Some ''xyz'') \<and>
   new_tokens (getCaptchaToken False scenarioE) = [''abc123''] \<and>
   routes_aborted (getCaptchaToken False scenarioE) = [requestE] \<and>
   signal_aborted (getCaptchaToken False scenarioE) \<and>
   abort_events (getCaptchaToken False scenarioE) = 1 \<and>
   1 \<le> closes (getCaptchaToken False scenarioE)"
proof -
  have 1: "fst (triggering False (start scenarioE)) = Val False"
    by code_simp
  have 2: "concat (requests scenarioE) = requestE # []"
    by (simp add: scenarioE_def)
  have 3: "authorization requestE = Some ''Bearer abc123''"
    and 4: "postData requestE = JsonObject (Some ''xyz'')"
    by (simp_all add: requestE_def)
  show ?thesis
    using 1 2 first_match_interception [OF 1 2 3 4] by simp
qed

text \<open>
  C1 as the spec states it fails on a run in which the request of Scenario E matches
  and, while the browser closes, the same request matches once more: the handler runs
  for each of them, and the callback is called twice with \<open>abc123\<close>.
\<close>

definition matchTwice :: script where
  "matchTwice =
     \<lparr>units = [ok, ok, ok, ok, ok, ok, ok, ok, ok, ok], texts = [], buffers = [], boxes = [],
      solutions = [], requests = [[], [], [requestE], [requestE]]\<rparr>"

theorem callback_twice_counterexample:
  "concat (requests matchTwice) = [requestE, requestE] \<and>
   result (getCaptchaToken False matchTwice) = Fulfilled (Some ''xyz'') \<and>
   new_tokens (getCaptchaToken False matchTwice) = [''abc123'', ''abc123''] \<and>
   closes (getCaptchaToken False matchTwice) = 2"
  by code_simp

subsection \<open>The cancellation signal\<close>














end
